theory Spec2Isabelle
  imports Complex_Main "HOL-Library.AList"
begin

section \<open>JavaScript numbers\<close>

text \<open>
  The audio engine computes with JavaScript numbers (IEEE 754 binary64). A number is
  modelled as a real number or one of the three special values. Signed zeros are not
  distinguished: zero stands for \<^verbatim>\<open>+0\<close>.
\<close>

datatype jsnum = Num real | PosInf | NegInf | NaN

text \<open>
  The operations of this section compute a finite result exactly and model the range of
  binary64; the rounding to 53 significant bits is added to them in the next section. The
  largest finite number is \<open>2 ^ 1024 - 2 ^ 971\<close> and a result of magnitude at least
  \<open>2 ^ 1024 - 2 ^ 970\<close> rounds to an infinity; the smallest positive number is
  \<open>1 / 2 ^ 1074\<close> and a result of magnitude at most half of it rounds to zero. The results
  of additions, subtractions, multiplications, divisions, logarithms and powers pass through
  \<open>fin\<close>; a remainder, a rounding to an integer, an absolute value or a square root of a
  number in the range is in the range.
\<close>

definition fin :: "real \<Rightarrow> jsnum" where
  "fin r =
     (if 2 ^ 1024 - 2 ^ 970 \<le> \<bar>r\<bar> then (if 0 < r then PosInf else NegInf)
      else if \<bar>r\<bar> \<le> 1 / 2 ^ 1075 then Num 0
      else Num r)"

text \<open>\<^verbatim>\<open>Number.isFinite\<close>\<close>

fun isFinite :: "jsnum \<Rightarrow> bool" where
  "isFinite (Num r) = True"
| "isFinite x = False"

text \<open>The comparisons \<^verbatim>\<open><\<close> and \<^verbatim>\<open><=\<close>: false whenever an operand is \<^verbatim>\<open>NaN\<close>.\<close>

fun jlt :: "jsnum \<Rightarrow> jsnum \<Rightarrow> bool" where
  "jlt (Num a) (Num b) = (a < b)"
| "jlt NaN y = False"
| "jlt x NaN = False"
| "jlt x NegInf = False"
| "jlt PosInf y = False"
| "jlt x y = True"

fun jle :: "jsnum \<Rightarrow> jsnum \<Rightarrow> bool" where
  "jle (Num a) (Num b) = (a \<le> b)"
| "jle NaN y = False"
| "jle x NaN = False"
| "jle NegInf y = True"
| "jle x PosInf = True"
| "jle x y = False"

text \<open>The arithmetic operators \<^verbatim>\<open>+\<close>, \<^verbatim>\<open>-\<close>, \<^verbatim>\<open>*\<close>, \<^verbatim>\<open>/\<close> and \<^verbatim>\<open>%\<close>.\<close>

fun jneg :: "jsnum \<Rightarrow> jsnum" where
  "jneg (Num a) = Num (- a)"
| "jneg PosInf = NegInf"
| "jneg NegInf = PosInf"
| "jneg NaN = NaN"

fun jadd :: "jsnum \<Rightarrow> jsnum \<Rightarrow> jsnum" where
  "jadd (Num a) (Num b) = fin (a + b)"
| "jadd NaN y = NaN"
| "jadd x NaN = NaN"
| "jadd PosInf NegInf = NaN"
| "jadd NegInf PosInf = NaN"
| "jadd PosInf y = PosInf"
| "jadd x PosInf = PosInf"
| "jadd NegInf y = NegInf"
| "jadd x NegInf = NegInf"

definition jsub :: "jsnum \<Rightarrow> jsnum \<Rightarrow> jsnum" where
  "jsub x y = jadd x (jneg y)"

fun jmul :: "jsnum \<Rightarrow> jsnum \<Rightarrow> jsnum" where
  "jmul (Num a) (Num b) = fin (a * b)"
| "jmul NaN y = NaN"
| "jmul x NaN = NaN"
| "jmul (Num a) PosInf = (if a = 0 then NaN else if 0 < a then PosInf else NegInf)"
| "jmul (Num a) NegInf = (if a = 0 then NaN else if 0 < a then NegInf else PosInf)"
| "jmul PosInf (Num b) = (if b = 0 then NaN else if 0 < b then PosInf else NegInf)"
| "jmul NegInf (Num b) = (if b = 0 then NaN else if 0 < b then NegInf else PosInf)"
| "jmul PosInf PosInf = PosInf"
| "jmul NegInf NegInf = PosInf"
| "jmul PosInf NegInf = NegInf"
| "jmul NegInf PosInf = NegInf"

fun jdiv :: "jsnum \<Rightarrow> jsnum \<Rightarrow> jsnum" where
  "jdiv (Num a) (Num b) =
     (if b = 0 then (if a = 0 then NaN else if 0 < a then PosInf else NegInf)
      else fin (a / b))"
| "jdiv NaN y = NaN"
| "jdiv x NaN = NaN"
| "jdiv (Num a) y = Num 0"
| "jdiv PosInf (Num b) = (if 0 \<le> b then PosInf else NegInf)"
| "jdiv NegInf (Num b) = (if 0 \<le> b then NegInf else PosInf)"
| "jdiv x y = NaN"

text \<open>
  The remainder \<^verbatim>\<open>a % b\<close> has the sign of the dividend: the quotient is truncated
  towards zero. It is exact in binary64.
\<close>

definition trunc :: "real \<Rightarrow> int" where
  "trunc r = (if 0 \<le> r then \<lfloor>r\<rfloor> else \<lceil>r\<rceil>)"

fun jrem :: "jsnum \<Rightarrow> jsnum \<Rightarrow> jsnum" where
  "jrem (Num a) (Num b) = (if b = 0 then NaN else Num (a - b * of_int (trunc (a / b))))"
| "jrem NaN y = NaN"
| "jrem x NaN = NaN"
| "jrem (Num a) y = Num a"
| "jrem x y = NaN"

text \<open>
  \<^verbatim>\<open>Math.abs\<close>, \<^verbatim>\<open>Math.sqrt\<close>, \<^verbatim>\<open>Math.log\<close>, \<^verbatim>\<open>Math.round\<close> (halves round up),
  \<^verbatim>\<open>Math.floor\<close>, and \<^verbatim>\<open>Math.pow\<close> with base 2.
\<close>

fun jabs :: "jsnum \<Rightarrow> jsnum" where
  "jabs (Num r) = Num \<bar>r\<bar>"
| "jabs NaN = NaN"
| "jabs x = PosInf"

fun jsqrt :: "jsnum \<Rightarrow> jsnum" where
  "jsqrt (Num r) = (if r < 0 then NaN else Num (sqrt r))"
| "jsqrt PosInf = PosInf"
| "jsqrt x = NaN"

fun jlog :: "jsnum \<Rightarrow> jsnum" where
  "jlog (Num r) = (if r < 0 then NaN else if r = 0 then NegInf else fin (ln r))"
| "jlog PosInf = PosInf"
| "jlog x = NaN"

fun jround :: "jsnum \<Rightarrow> jsnum" where
  "jround (Num r) = Num (of_int \<lfloor>r + 1 / 2\<rfloor>)"
| "jround x = x"

fun jfloor :: "jsnum \<Rightarrow> jsnum" where
  "jfloor (Num r) = Num (of_int \<lfloor>r\<rfloor>)"
| "jfloor x = x"


text \<open>
  Reading an array at a number: the element when the number is an index of the array, and
  \<^verbatim>\<open>undefined\<close> (\<open>None\<close>) otherwise, in particular at \<^verbatim>\<open>NaN\<close>.
\<close>

fun js_index :: "'a list \<Rightarrow> jsnum \<Rightarrow> 'a option" where
  "js_index xs (Num r) =
     (if 0 \<le> r \<and> r < real (length xs) \<and> of_int \<lfloor>r\<rfloor> = r then Some (xs ! nat \<lfloor>r\<rfloor>) else None)"
| "js_index xs x = None"

text \<open>
  The remainder on integral numbers. A zero divisor (which gives \<^verbatim>\<open>NaN\<close>) does not occur
  where it is used: \<^verbatim>\<open>gcd\<close> tests \<^verbatim>\<open>b === 0\<close> first.
\<close>

definition js_rem :: "int \<Rightarrow> int \<Rightarrow> int" where
  "js_rem a b = sgn a * (\<bar>a\<bar> mod \<bar>b\<bar>)"


section \<open>Rounding to binary64 and to binary32\<close>

text \<open>
  The operators \<^verbatim>\<open>+\<close>, \<^verbatim>\<open>-\<close>, \<^verbatim>\<open>*\<close>, \<^verbatim>\<open>/\<close> and \<^verbatim>\<open>Math.sqrt\<close> are correctly
  rounded: their result is the binary64 number nearest to the exact result, and of two
  equally near ones the one with the even significand. \<open>rne\<close> rounds a real number to the
  nearest integer, a half to the even neighbour.
\<close>

definition rne :: "real \<Rightarrow> int" where
  "rne y =
     (let f = \<lfloor>y\<rfloor>; d = y - of_int f
      in if d < 1 / 2 then f else if 1 / 2 < d then f + 1 else if even f then f else f + 1)"

text \<open>
  Rounding to the floating-point format of precision \<open>p\<close> and least exponent \<open>emin\<close>.
  A number \<open>x\<close> of the binade \<open>2 ^ e \<le> \<bar>x\<bar> < 2 ^ (e + 1)\<close>, that is
  \<open>e = \<lfloor>log 2 \<bar>x\<bar>\<rfloor>\<close>, is rounded to a multiple of \<open>2 ^ (e - (p - 1))\<close>; below the
  binade \<open>emin\<close> the spacing stays that of \<open>emin\<close> (the subnormal numbers). binary64 has
  precision 53 and least exponent \<open>-1022\<close>, binary32 has precision 24 and least exponent
  \<open>-126\<close>. A decimal literal of the source such as \<^verbatim>\<open>0.9\<close> denotes \<open>round64 (9 / 10)\<close>.
\<close>

definition roundp :: "nat \<Rightarrow> int \<Rightarrow> real \<Rightarrow> real" where
  "roundp p emin x =
     (if x = 0 then 0
      else let u = 2 powr of_int (max \<lfloor>log 2 \<bar>x\<bar>\<rfloor> emin - (int p - 1))
           in of_int (rne (x / u)) * u)"

definition round64 :: "real \<Rightarrow> real" where
  "round64 = roundp 53 (- 1022)"

definition round32 :: "real \<Rightarrow> real" where
  "round32 = roundp 24 (- 126)"

text \<open>
  The rounded operations: the exact result passes through \<open>fin\<close>, which decides overflow
  and underflow to zero (its two thresholds are the midpoints at which rounding goes to an
  infinity and to zero), and a finite result is rounded. The pitch detector and the
  polyrhythm grid compute with these. The note mapper goes through \<^verbatim>\<open>Math.log\<close> and
  \<^verbatim>\<open>Math.pow\<close>, whose results the language leaves to the implementation; its model
  computes with the exact operations of the previous section.
\<close>

fun r64 :: "jsnum \<Rightarrow> jsnum" where
  "r64 (Num r) = Num (round64 r)"
| "r64 x = x"

definition jadd64 :: "jsnum \<Rightarrow> jsnum \<Rightarrow> jsnum" where
  "jadd64 x y = r64 (jadd x y)"

definition jsub64 :: "jsnum \<Rightarrow> jsnum \<Rightarrow> jsnum" where
  "jsub64 x y = r64 (jsub x y)"

definition jmul64 :: "jsnum \<Rightarrow> jsnum \<Rightarrow> jsnum" where
  "jmul64 x y = r64 (jmul x y)"

definition jdiv64 :: "jsnum \<Rightarrow> jsnum \<Rightarrow> jsnum" where
  "jdiv64 x y = r64 (jdiv x y)"

definition jsqrt64 :: "jsnum \<Rightarrow> jsnum" where
  "jsqrt64 x = r64 (jsqrt x)"

text \<open>
  Storing a number in a \<^verbatim>\<open>Float32Array\<close> rounds it to binary32, whose largest finite
  number is \<open>2 ^ 128 - 2 ^ 104\<close>; reading it back is exact.
\<close>

fun to32 :: "jsnum \<Rightarrow> jsnum" where
  "to32 (Num r) =
     (if 2 ^ 128 - 2 ^ 103 \<le> \<bar>r\<bar> then (if 0 < r then PosInf else NegInf)
      else Num (round32 r))"
| "to32 x = x"


section \<open>Tuner: frequency to note\<close>

text \<open>\<^verbatim>\<open>enum NoteName\<close> and \<^verbatim>\<open>interface TunerData\<close> of \<^verbatim>\<open>types.ts\<close>.\<close>

datatype NoteName = C | CSharp | D | DSharp | E | F | FSharp | G | GSharp | A | ASharp | B

definition NOTE_STRINGS :: "NoteName list" where
  "NOTE_STRINGS = [C, CSharp, D, DSharp, E, F, FSharp, G, GSharp, A, ASharp, B]"

text \<open>
  The field \<open>note\<close> is optional in the model because \<^verbatim>\<open>NOTE_STRINGS[noteIndex]\<close> is
  \<^verbatim>\<open>undefined\<close> when \<^verbatim>\<open>noteIndex\<close> is not an index of the table.
\<close>

record TunerData =
  "note" :: "NoteName option"
  octave :: jsnum
  cents :: jsnum
  frequency :: jsnum
  isSilent :: bool

text \<open>
  \<^verbatim>\<open>getNoteFromFrequency\<close> of \<^verbatim>\<open>audioEngine.ts\<close>, in three parts: the fractional MIDI
  number \<^verbatim>\<open>noteNum = 12 * (Math.log(frequency / 440) / Math.log(2)) + 69\<close>, the fields
  computed from it, and the guard in front of both.
\<close>

definition noteNumOf :: "jsnum \<Rightarrow> jsnum" where
  "noteNumOf freq =
     jadd (jmul (Num 12) (jdiv (jlog (jdiv freq (Num 440))) (jlog (Num 2)))) (Num 69)"

definition noteData :: "jsnum \<Rightarrow> jsnum \<Rightarrow> TunerData" where
  "noteData freq noteNum =
     (let midi = jround noteNum;
          cents = jfloor (jmul (jsub noteNum midi) (Num 100));
          noteIndex = jrem (jadd (jrem midi (Num 12)) (Num 12)) (Num 12);
          octave = jsub (jfloor (jdiv midi (Num 12))) (Num 1)
      in \<lparr>note = js_index NOTE_STRINGS noteIndex, octave = octave, cents = cents,
           frequency = freq, isSilent = False\<rparr>)"

definition getNoteFromFrequency :: "jsnum \<Rightarrow> TunerData" where
  "getNoteFromFrequency freq =
     (if \<not> isFinite freq \<or> jle freq (Num 0)
      then \<lparr>note = Some A, octave = Num 4, cents = Num 0, frequency = Num 440, isSilent = True\<rparr>
      else noteData freq (noteNumOf freq))"



section \<open>Tuner: pitch detection\<close>

text \<open>
  \<^verbatim>\<open>autoCorrelate(buf, sampleRate)\<close> of \<^verbatim>\<open>audioEngine.ts\<close>. The buffer is a
  \<^verbatim>\<open>Float32Array\<close> of finite samples, a list of reals. Every arithmetic operation of
  the function is modelled with its rounding to binary64. The sampling rate and the returned
  frequency are JavaScript numbers.

  The first loop accumulates the squares of the samples: \<^verbatim>\<open>rms += val * val\<close>.
\<close>

definition sumSquares :: "real list \<Rightarrow> jsnum" where
  "sumSquares buf = fold (\<lambda>val rms. jadd64 rms (jmul64 (Num val) (Num val))) buf (Num 0)"

text \<open>
  \<^verbatim>\<open>rms = Math.sqrt(rms / SIZE)\<close>. For the empty buffer this is \<^verbatim>\<open>Math.sqrt(0 / 0)\<close>,
  that is \<^verbatim>\<open>NaN\<close>.
\<close>

definition rms :: "real list \<Rightarrow> jsnum" where
  "rms buf = jsqrt64 (jdiv64 (sumSquares buf) (Num (real (length buf))))"

text \<open>
  The inner loop, \<^verbatim>\<open>correlation += Math.abs((buf[i]) - (buf[i + offset]))\<close>, and
  \<^verbatim>\<open>correlation = 1 - (correlation / MAX_SAMPLES)\<close>: the correlation at a lag is one
  minus the mean absolute difference between the first half of the buffer and its copy
  shifted by \<open>offset\<close>. The loop over the lags runs while \<^verbatim>\<open>offset < MAX_SAMPLES - 1\<close>, so
  every index read is inside the buffer and \<^verbatim>\<open>MAX_SAMPLES\<close> is at least 4 where the
  division happens.
\<close>

definition correlationAt :: "real list \<Rightarrow> nat \<Rightarrow> jsnum" where
  "correlationAt buf offset =
     (let MAX_SAMPLES = length buf div 2
      in jsub64 (Num 1)
           (jdiv64
              (fold (\<lambda>i correlation.
                        jadd64 correlation (jabs (jsub64 (Num (buf ! i)) (Num (buf ! (i + offset))))))
                 [0..<MAX_SAMPLES] (Num 0))
              (Num (real MAX_SAMPLES))))"

text \<open>
  Reading the typed array \<^verbatim>\<open>correlations\<close>: outside the array the read is
  \<^verbatim>\<open>undefined\<close>, which is \<^verbatim>\<open>NaN\<close> in the arithmetic that follows.
\<close>

definition cget :: "jsnum list \<Rightarrow> int \<Rightarrow> jsnum" where
  "cget correlations i =
     (if 0 \<le> i \<and> i < int (length correlations) then correlations ! nat i else NaN)"

text \<open>
  The branch \<^verbatim>\<open>else if (foundGoodCorrelation)\<close>: the parabolic interpolation around the best
  lag and the two returns of that branch.
\<close>

definition refine :: "jsnum \<Rightarrow> jsnum list \<Rightarrow> int \<Rightarrow> jsnum" where
  "refine sampleRate correlations bestOffset =
     (let denom = jsub64 (jsub64 (jmul64 (Num 2) (cget correlations bestOffset))
                            (cget correlations (bestOffset + 1)))
                    (cget correlations (bestOffset - 1))
      in if jlt (jabs denom) (Num (round64 (1 / 10000)))
         then jdiv64 sampleRate (Num (of_int (if bestOffset = 0 then 1 else bestOffset)))
         else
           let shift = jdiv64 (jsub64 (cget correlations (bestOffset + 1))
                                 (cget correlations (bestOffset - 1)))
                         (jmul64 (Num 2) denom)
           in jdiv64 sampleRate (jadd64 (Num (of_int bestOffset)) shift))"

text \<open>
  The loop over the lags, from \<open>offset\<close> on, with the loop variables as arguments, and the
  code after the loop in its last branch. \<^verbatim>\<open>correlations[offset] = correlation\<close> stores
  the correlation rounded to binary32; the comparisons are made on the binary64 value.
\<close>

function scan ::
  "real list \<Rightarrow> jsnum \<Rightarrow> nat \<Rightarrow> int \<Rightarrow> jsnum \<Rightarrow> bool \<Rightarrow> jsnum list \<Rightarrow> jsnum \<Rightarrow> jsnum" where
  "scan buf sampleRate offset bestOffset bestCorrelation foundGoodCorrelation correlations
       lastCorrelation =
     (if int offset < int (length buf div 2) - 1 then
        if jlt (Num (round64 (9 / 10))) (correlationAt buf offset)
           \<and> jlt lastCorrelation (correlationAt buf offset) then
          if jlt bestCorrelation (correlationAt buf offset)
          then scan buf sampleRate (offset + 1) (int offset) (correlationAt buf offset) True
                 (correlations[offset := to32 (correlationAt buf offset)]) (correlationAt buf offset)
          else scan buf sampleRate (offset + 1) bestOffset bestCorrelation True
                 (correlations[offset := to32 (correlationAt buf offset)]) (correlationAt buf offset)
        else if foundGoodCorrelation
        then refine sampleRate (correlations[offset := to32 (correlationAt buf offset)]) bestOffset
        else scan buf sampleRate (offset + 1) bestOffset bestCorrelation foundGoodCorrelation
               (correlations[offset := to32 (correlationAt buf offset)]) (correlationAt buf offset)
      else if jlt (Num (round64 (1 / 100))) bestCorrelation \<and> bestOffset > 0
        then jdiv64 sampleRate (Num (of_int bestOffset))
        else Num (- 1))"
  by pat_completeness auto
termination
  by (relation "measure (\<lambda>(buf, sampleRate, offset, rest). length buf div 2 - offset)") auto

declare scan.simps [simp del]

text \<open>
  The function: the silence gate \<^verbatim>\<open>if (rms < 0.01) return -1;\<close> and the loop, entered
  with \<^verbatim>\<open>bestOffset = -1\<close>, \<^verbatim>\<open>bestCorrelation = 0\<close>, a zeroed array and
  \<^verbatim>\<open>lastCorrelation = 1\<close>.
\<close>

definition autoCorrelate :: "real list \<Rightarrow> jsnum \<Rightarrow> jsnum" where
  "autoCorrelate buf sampleRate =
     (if jlt (rms buf) (Num (round64 (1 / 100))) then Num (- 1)
      else scan buf sampleRate 2 (- 1) (Num 0) False (replicate (length buf div 2) (Num 0))
             (Num 1))"

text \<open>
  The fallback in the words of the specification, for comparison with the code: the lag of
  highest correlation among the lags from 2 to half the buffer length (the first one, if
  several share it) gives \<open>sampleRate / lag\<close> provided its correlation exceeds 0.01, and
  no pitch otherwise (also when there is no such lag). The correlations and the constant
  are those that the code computes.
\<close>

definition bestLag :: "real list \<Rightarrow> nat list \<Rightarrow> nat \<Rightarrow> nat" where
  "bestLag buf lags lag0 =
     fold (\<lambda>lag best. if jlt (correlationAt buf best) (correlationAt buf lag) then lag else best)
       lags lag0"

definition spec_fallback :: "real list \<Rightarrow> jsnum \<Rightarrow> jsnum" where
  "spec_fallback buf sampleRate =
     (if length buf div 2 < 2 then Num (- 1)
      else
        let best = bestLag buf [3..<length buf div 2 + 1] 2
        in if jlt (Num (round64 (1 / 100))) (correlationAt buf best)
           then jdiv64 sampleRate (Num (real best))
           else Num (- 1))"

text \<open>
  A buffer of sixteen samples that is loud enough and repeats at no lag. Its samples, and
  every sum, difference and quotient computed from them, are binary64 numbers.
\<close>

definition buf16 :: "real list" where
  "buf16 = [1, 0, 1 / 2, 0, 0, 0, 0, 0, 0, 0, 0, 0, 0, 0, 0, 0]"


section \<open>Metronome engine\<close>

text \<open>The step intensities of \<^verbatim>\<open>types.ts\<close> (\<^verbatim>\<open>enum BeatIntensity\<close>).\<close>

datatype BeatIntensity = MUTE | WEAK | STRONG | POLY_A | POLY_B | POLY_BOTH













section \<open>Metronome component: the polyrhythm grid\<close>

text \<open>
  The step counts of the metronome are integral JavaScript numbers, modelled as \<open>int\<close>.
  \<^verbatim>\<open>const gcd = (a, b) => b === 0 ? a : gcd(b, a % b);\<close>
\<close>

function gcd_js :: "int \<Rightarrow> int \<Rightarrow> int" where
  "gcd_js a b = (if b = 0 then a else gcd_js b (js_rem a b))"
  by pat_completeness auto
termination
proof (relation "measure (\<lambda>(a, b). nat \<bar>b\<bar>)")
  show "wf (measure (\<lambda>(a, b). nat \<bar>b\<bar>))"
    by simp
next
  fix a b :: int
  assume b: "b \<noteq> 0"
  then have less: "\<bar>a\<bar> mod \<bar>b\<bar> < \<bar>b\<bar>" and nonneg: "0 \<le> \<bar>a\<bar> mod \<bar>b\<bar>"
    by simp_all
  have "\<bar>js_rem a b\<bar> = \<bar>a\<bar> mod \<bar>b\<bar>"
  proof (cases "a = 0")
    case True
    then show ?thesis by (simp add: js_rem_def)
  next
    case False
    with nonneg show ?thesis by (simp add: js_rem_def abs_mult)
  qed
  with less b show "((b, js_rem a b), (a, b)) \<in> measure (\<lambda>(a, b). nat \<bar>b\<bar>)"
    by simp
qed

declare gcd_js.simps [simp del]

text \<open>
  \<^verbatim>\<open>const lcm = (a, b) => { if (a === 0 || b === 0) return 0;
                            return Math.abs(a * b) / gcd(a, b); };\<close>
  The product and the quotient are binary64 operations, so the result is a JavaScript
  number. (The remainder of \<^verbatim>\<open>gcd\<close> is exact.)
\<close>

definition lcm_js :: "int \<Rightarrow> int \<Rightarrow> jsnum" where
  "lcm_js a b =
     (if a = 0 \<or> b = 0 then Num 0
      else jdiv64 (jabs (jmul64 (Num (of_int a)) (Num (of_int b)))) (Num (of_int (gcd_js a b))))"

text \<open>
  \<^verbatim>\<open>new Array(len)\<close> throws a \<^verbatim>\<open>RangeError\<close> unless \<open>len\<close> is an integer from 0 to
  \<open>2 ^ 32 - 1\<close>; \<open>array_length\<close> is the length of the array when it does not.
\<close>

datatype js_error = RangeError

fun array_length :: "jsnum \<Rightarrow> nat option" where
  "array_length (Num r) =
     (if 0 \<le> r \<and> r < 2 ^ 32 \<and> of_int \<lfloor>r\<rfloor> = r then Some (nat \<lfloor>r\<rfloor>) else None)"
| "array_length x = None"

text \<open>
  One iteration of the loop that fills the polyrhythm grid: index \<open>i\<close> is written when
  it is a hit of rhythm A (\<^verbatim>\<open>i % stepIntervalA === 0\<close>), of rhythm B or of both, and keeps
  its value otherwise.
\<close>

definition polyStep :: "jsnum \<Rightarrow> jsnum \<Rightarrow> nat \<Rightarrow> BeatIntensity list \<Rightarrow> BeatIntensity list" where
  "polyStep stepIntervalA stepIntervalB i newGrid =
     (let hitA = (jrem (Num (real i)) stepIntervalA = Num 0);
          hitB = (jrem (Num (real i)) stepIntervalB = Num 0)
      in if hitA \<and> hitB then newGrid[i := POLY_BOTH]
         else if hitA then newGrid[i := POLY_A]
         else if hitB then newGrid[i := POLY_B]
         else newGrid)"

text \<open>
  The polyrhythm branch of the grid effect of \<^verbatim>\<open>Metronome.tsx\<close>. The effect replaces the
  grid state (\<^verbatim>\<open>setGrid(newGrid)\<close>), returns early and leaves it as it is, or throws, so
  the model takes the current grid \<open>prevGrid\<close> and returns the grid after the effect or
  the error. \<^verbatim>\<open>new Array(totalSteps).fill(MUTE)\<close> is \<open>replicate\<close>; the \<^verbatim>\<open>for\<close> loop
  over \<open>0 \<le> i < totalSteps\<close> is a \<open>fold\<close> over the indices below the length.
\<close>

definition gridEffect_poly ::
  "int \<Rightarrow> int \<Rightarrow> BeatIntensity list \<Rightarrow> js_error + BeatIntensity list" where
  "gridEffect_poly polyA polyB prevGrid =
     (let stepsA = max 1 polyA;
          stepsB = max 1 polyB;
          totalSteps = lcm_js stepsA stepsB
      in if totalSteps = Num 0 then Inr prevGrid
         else
           case array_length totalSteps of
             None \<Rightarrow> Inl RangeError
           | Some n \<Rightarrow>
               let newGrid = replicate n MUTE;
                   stepIntervalA = jdiv64 totalSteps (Num (of_int stepsA));
                   stepIntervalB = jdiv64 totalSteps (Num (of_int stepsB))
               in Inr (fold (polyStep stepIntervalA stepIntervalB) [0..<n] newGrid))"

text \<open>
  The classification of index \<open>i\<close> for the step intervals \<open>ka\<close> of rhythm A and \<open>kb\<close>
  of rhythm B, which the loop is shown to compute (lemma \<open>gridEffect_poly_eq\<close>).
\<close>

definition polyClass :: "nat \<Rightarrow> nat \<Rightarrow> nat \<Rightarrow> BeatIntensity" where
  "polyClass ka kb i =
     (if i mod ka = 0 \<and> i mod kb = 0 then POLY_BOTH
      else if i mod ka = 0 then POLY_A
      else if i mod kb = 0 then POLY_B
      else MUTE)"

text \<open>The number of steps on which rhythm A sounds, and on which rhythm B sounds.\<close>

definition count_hitA :: "BeatIntensity list \<Rightarrow> nat" where
  "count_hitA g = length (filter (\<lambda>x. x = POLY_A \<or> x = POLY_BOTH) g)"

definition count_hitB :: "BeatIntensity list \<Rightarrow> nat" where
  "count_hitB g = length (filter (\<lambda>x. x = POLY_B \<or> x = POLY_BOTH) g)"


section \<open>Metronome component: the speed trainer\<close>

text \<open>
  \<^verbatim>\<open>interface SpeedTrainerSettings\<close> of \<^verbatim>\<open>types.ts\<close>, and the state of the
  \<^verbatim>\<open>Metronome\<close> component that the speed trainer reads and writes: the React states
  \<^verbatim>\<open>bpm\<close>, \<^verbatim>\<open>isPlaying\<close>, \<^verbatim>\<open>trainerSettings\<close> and \<^verbatim>\<open>currentStepIndex\<close>, and the ref
  \<^verbatim>\<open>prevStepRef\<close>. The tempo and the counters are integral.
\<close>

record SpeedTrainerSettings =
  enabled :: bool
  barCount :: int
  increment :: int
  currentBarTracker :: int

record Metronome =
  bpm_st :: int
  isPlaying_st :: bool
  trainerSettings :: SpeedTrainerSettings
  currentStepIndex :: int
  prevStepRef :: int

text \<open>
  The body of the effect with the dependencies
  \<^verbatim>\<open>[currentStepIndex, isPlaying, trainerSettings.enabled]\<close>.
\<close>

definition trainerEffect :: "Metronome \<Rightarrow> Metronome" where
  "trainerEffect s =
     (let wasZero = (prevStepRef s = 0);
          s1 = s\<lparr>prevStepRef := currentStepIndex s\<rparr>
      in if wasZero \<or> currentStepIndex s1 \<noteq> 0 then s1
         else if \<not> isPlaying_st s1 \<or> \<not> enabled (trainerSettings s1) then s1
         else
           let prev = trainerSettings s1;
               nextCount = currentBarTracker prev + 1
           in if nextCount > barCount prev
              then s1\<lparr>bpm_st := min 300 (bpm_st s1 + increment prev),
                      trainerSettings := prev\<lparr>currentBarTracker := 1\<rparr>\<rparr>
              else s1\<lparr>trainerSettings := prev\<lparr>currentBarTracker := nextCount\<rparr>\<rparr>)"

text \<open>
  The engine reports a step through the callback \<^verbatim>\<open>(step) => setCurrentStepIndex(step)\<close>.
  React renders again, and runs the effect, only when the state has changed. (A run of the
  effect on an unchanged step index would change nothing: lemma \<open>trainerEffect_idle\<close>.)
\<close>

definition onStep :: "int \<Rightarrow> Metronome \<Rightarrow> Metronome" where
  "onStep step s =
     (if currentStepIndex s = step then s else trainerEffect (s\<lparr>currentStepIndex := step\<rparr>))"

text \<open>
  \<^verbatim>\<open>togglePlay\<close>, followed by the run of the effect that the change of \<^verbatim>\<open>isPlaying\<close>
  causes.
\<close>

definition togglePlay :: "Metronome \<Rightarrow> Metronome" where
  "togglePlay s =
     (if \<not> isPlaying_st s
      then trainerEffect
             (s\<lparr>trainerSettings := (trainerSettings s)\<lparr>currentBarTracker := 0\<rparr>,
                currentStepIndex := - 1, isPlaying_st := True\<rparr>)
      else trainerEffect
             (s\<lparr>currentStepIndex := - 1, prevStepRef := - 1, isPlaying_st := False\<rparr>))"

text \<open>
  The step indices that the engine reports for a grid of \<open>n\<close> steps: one bar, and \<open>k\<close>
  full bars followed by the wrap to step 0. \<open>run\<close> feeds a sequence of reported steps to
  the component.
\<close>

definition bar :: "nat \<Rightarrow> int list" where
  "bar n = map int [0..<n]"

definition wraps :: "nat \<Rightarrow> nat \<Rightarrow> int list" where
  "wraps n k = concat (replicate k (bar n)) @ [0]"

definition run :: "int list \<Rightarrow> Metronome \<Rightarrow> Metronome" where
  "run steps s = fold onStep steps s"

text \<open>
  The stopped metronome of the scenario: 100 BPM, the trainer enabled with four bars and an
  increment of 5.
\<close>

definition metronome0 :: Metronome where
  "metronome0 = \<lparr>bpm_st = 100, isPlaying_st = False,
     trainerSettings = \<lparr>enabled = True, barCount = 4, increment = 5, currentBarTracker = 0\<rparr>,
     currentStepIndex = - 1, prevStepRef = - 1\<rparr>"

text \<open>
  The running component on step \<open>i\<close>, after the effect has run, with bar counter \<open>c\<close>,
  tempo \<open>b\<close> and the other trainer settings as in \<open>t\<close>.
\<close>

definition at_step :: "Metronome \<Rightarrow> int \<Rightarrow> int \<Rightarrow> int \<Rightarrow> SpeedTrainerSettings \<Rightarrow> bool" where
  "at_step s i c b t \<longleftrightarrow> isPlaying_st s \<and> currentStepIndex s = i \<and> prevStepRef s = i
     \<and> bpm_st s = b \<and> trainerSettings s = t\<lparr>currentBarTracker := c\<rparr>"


section \<open>Polyphonic synthesiser\<close>

text \<open>
  A voice is the object \<^verbatim>\<open>{ osc, gain, isStopped }\<close>; its two audio nodes are identified
  by numbers. Voices are mutable objects held by reference: \<^verbatim>\<open>stop\<close> sets the flag of the
  object it found in the map, and the safety timeout of \<^verbatim>\<open>play\<close> compares references. So
  the model has a store \<open>noteObjs\<close> of voice objects, a reference being an index into it,
  and the map \<^verbatim>\<open>activeNotes\<close> from MIDI pitches to references. The map is an association
  list in insertion order, the order in which \<^verbatim>\<open>Map.forEach\<close> visits the entries:
  \<^verbatim>\<open>get\<close> is \<open>map_of\<close>, \<^verbatim>\<open>set\<close> is \<open>AList.update\<close>, \<^verbatim>\<open>delete\<close> is \<open>AList.delete\<close>.
  \<open>nodes\<close> counts the audio nodes created so far, and \<open>released\<close> records the fades
  requested from the audio layer (oscillator, gain node, immediate or not); an exception
  inside the \<^verbatim>\<open>try\<close> block of \<^verbatim>\<open>stop\<close> is caught and does not change what follows.
\<close>

record voice =
  osc :: nat
  gain :: nat
  isStopped :: bool

record PolySynth =
  activeNotes :: "(int \<times> nat) list"
  noteObjs :: "voice list"
  decayMode :: bool
  nodes :: nat
  released :: "(nat \<times> nat \<times> bool) list"

definition stop :: "int \<Rightarrow> bool \<Rightarrow> PolySynth \<Rightarrow> PolySynth" where
  "stop midi immediate s =
     (case map_of (activeNotes s) midi of
        None \<Rightarrow> s
      | Some a \<Rightarrow>
          let active = noteObjs s ! a
          in if isStopped active then s
             else s\<lparr>noteObjs := (noteObjs s)[a := active\<lparr>isStopped := True\<rparr>],
                    released := released s @ [(osc active, gain active, immediate)],
                    activeNotes := AList.delete midi (activeNotes s)\<rparr>)"

definition play :: "int \<Rightarrow> PolySynth \<Rightarrow> PolySynth" where
  "play midi s =
     (let s1 = (if map_of (activeNotes s) midi \<noteq> None then stop midi True s else s);
          noteObj = \<lparr>osc = nodes s1, gain = nodes s1 + 1, isStopped = False\<rparr>;
          a = length (noteObjs s1)
      in s1\<lparr>nodes := nodes s1 + 2,
            noteObjs := noteObjs s1 @ [noteObj],
            activeNotes := AList.update midi a (activeNotes s1)\<rparr>)"

text \<open>
  In decay mode \<^verbatim>\<open>play\<close> also arms a safety timeout, which changes nothing until it
  fires. Its callback, for the pitch \<open>midi\<close> and the voice object \<open>a\<close> that it captured:
  \<^verbatim>\<open>if (this.activeNotes.get(midi) === noteObj) this.stop(midi, true);\<close>
\<close>

definition safetyTimeout :: "int \<Rightarrow> nat \<Rightarrow> PolySynth \<Rightarrow> PolySynth" where
  "safetyTimeout midi a s =
     (if map_of (activeNotes s) midi = Some a then stop midi True s else s)"

definition stopAll :: "PolySynth \<Rightarrow> PolySynth" where
  "stopAll s =
     (fold (\<lambda>midi. stop midi True) (map fst (activeNotes s)) s)\<lparr>activeNotes := []\<rparr>"

text \<open>
  The calls that reach a synthesiser: its three methods, the firing of a safety timeout,
  and the assignment of the public field \<^verbatim>\<open>decayMode\<close>. A new synthesiser has no voices;
  its one audio node is the master gain.
\<close>

datatype synth_call = Play int | Stop int bool | StopAll | SafetyTimeout int nat | SetDecayMode bool

fun apply_call :: "synth_call \<Rightarrow> PolySynth \<Rightarrow> PolySynth" where
  "apply_call (Play midi) s = play midi s"
| "apply_call (Stop midi immediate) s = stop midi immediate s"
| "apply_call StopAll s = stopAll s"
| "apply_call (SafetyTimeout midi a) s = safetyTimeout midi a s"
| "apply_call (SetDecayMode b) s = s\<lparr>decayMode := b\<rparr>"

definition new_PolySynth :: PolySynth where
  "new_PolySynth = \<lparr>activeNotes = [], noteObjs = [], decayMode = True, nodes = 1, released = []\<rparr>"

text \<open>
  The invariant of the voice map: no pitch occurs twice, no voice object is held under two
  pitches, and every entry refers to a voice object of the store whose flag is not set.
\<close>

definition voices_ok :: "PolySynth \<Rightarrow> bool" where
  "voices_ok s \<longleftrightarrow>
     distinct (map fst (activeNotes s)) \<and> distinct (map snd (activeNotes s))
     \<and> (\<forall>(midi, a) \<in> set (activeNotes s).
           a < length (noteObjs s) \<and> \<not> isStopped (noteObjs s ! a))"


section \<open>Auxiliary functions of the proofs\<close>

text \<open>
  The effect of \<open>fin\<close> on a real number inside the binary64 range, and the cents of a
  finite fractional MIDI number.
\<close>

definition flush :: "real \<Rightarrow> real" where
  "flush r = (if \<bar>r\<bar> \<le> 1 / 2 ^ 1075 then 0 else r)"

definition centsOf :: "real \<Rightarrow> int" where
  "centsOf x = \<lfloor>flush (flush (x - of_int \<lfloor>x + 1 / 2\<rfloor>) * 100)\<rfloor>"


section \<open>Properties of the tuner\<close>

subsection \<open>Results inside the binary64 range\<close>

lemma fin_flush: "\<bar>r\<bar> \<le> 1000000 \<Longrightarrow> fin r = Num (flush r)"
  by (simp add: fin_def flush_def)

lemma flush_abs_le: "\<bar>flush r\<bar> \<le> \<bar>r\<bar>"
  by (simp add: flush_def)

lemma flush_id: "r = 0 \<or> 1 / 2 ^ 1075 < \<bar>r\<bar> \<Longrightarrow> flush r = r"
  by (auto simp: flush_def)

lemma abs_of_int_ge_1: "k \<noteq> 0 \<Longrightarrow> 1 \<le> \<bar>real_of_int k\<bar>"
proof -
  assume "k \<noteq> 0"
  then have "1 \<le> \<bar>k\<bar>"
    by simp
  then have "real_of_int 1 \<le> real_of_int \<bar>k\<bar>"
    by (simp only: of_int_le_iff)
  then show ?thesis
    by simp
qed

lemma flush_int: "flush (of_int k) = of_int k"
proof (cases "k = 0")
  case True
  then show ?thesis by (simp add: flush_def)
next
  case False
  then have "1 \<le> \<bar>real_of_int k\<bar>"
    by (rule abs_of_int_ge_1)
  moreover have "(1::real) / 2 ^ 1075 < 1"
    by simp
  ultimately show ?thesis
    by (simp add: flush_def)
qed

lemma flush_int_div12: "flush (real_of_int k / 12) = real_of_int k / 12"
proof (cases "k = 0")
  case True
  then show ?thesis by (simp add: flush_def)
next
  case False
  then have "1 \<le> \<bar>real_of_int k\<bar>"
    by (rule abs_of_int_ge_1)
  then have "1 / 12 \<le> \<bar>real_of_int k / 12\<bar>"
    by simp
  moreover have "(1::real) / 2 ^ 1075 < 1 / 12"
    by simp
  ultimately show ?thesis
    by (intro flush_id) linarith
qed

lemma ln2_bounds: "1 / 2 \<le> ln (2::real)" "ln (2::real) < 1"
proof -
  have "ln (1 / 2 :: real) \<le> 1 / 2 - 1"
    by (rule ln_le_minus_one) simp
  then show "1 / 2 \<le> ln (2::real)"
    by (simp add: ln_div)
  show "ln (2::real) < 1"
    by (rule ln_2_less_1)
qed

lemma jlog_2: "jlog (Num 2) = Num (ln 2)"
  using ln2_bounds by (simp add: fin_def)

lemma ln_range:
  assumes "1 / 2 ^ 1075 < q" "q < 2 ^ 1075"
  shows "\<bar>ln q\<bar> \<le> (1075::real)"
proof -
  from assms have q: "0 < q"
    by (smt (verit) divide_pos_pos zero_less_power)
  have "ln q < ln (2 ^ 1075)"
    using assms q by (simp only: ln_less_cancel_iff zero_less_power zero_less_numeral)
  also have "\<dots> = 1075 * ln 2"
    by (simp only: ln_realpow of_nat_numeral)
  also have "\<dots> \<le> 1075"
    using ln2_bounds by simp
  finally have up: "ln q < 1075" .
  have "ln (1 / 2 ^ 1075 :: real) < ln q"
    using assms q by (subst ln_less_cancel_iff) simp_all
  moreover have "ln (1 / 2 ^ 1075 :: real) = - ln (2 ^ 1075)"
    by (simp only: inverse_eq_divide [symmetric] ln_inverse)
  moreover have "ln ((2::real) ^ 1075) = 1075 * ln 2"
    by (simp only: ln_realpow of_nat_numeral)
  moreover have "- 1075 \<le> - (1075 * ln (2::real))"
    using ln2_bounds by simp
  ultimately have "- 1075 < ln q"
    by linarith
  with up show ?thesis
    by simp
qed

subsection \<open>The fractional MIDI number of a frequency above the underflow threshold\<close>

lemma noteNumOf_finite:
  assumes "440 / 2 ^ 1075 < r" "r < 2 ^ 1024"
  shows "\<exists>x. noteNumOf (Num r) = Num x \<and> \<bar>x\<bar> \<le> 30000"
proof -
  define q where "q = r / 440"
  have q: "1 / 2 ^ 1075 < q" "q < 2 ^ 1075" "0 < q"
    using assms by (simp_all add: q_def field_simps)
  have "q < 2 ^ 1024 - 2 ^ 970"
    using assms by (simp add: q_def field_simps)
  with q have dq: "jdiv (Num r) (Num 440) = Num q"
    by (simp add: fin_def q_def)
  define l where "l = flush (ln q)"
  have "\<bar>ln q\<bar> \<le> 1075"
    using q by (intro ln_range)
  then have l: "\<bar>l\<bar> \<le> 1075" and lq: "jlog (Num q) = Num l"
    using q flush_abs_le [of "ln q"] by (simp_all add: l_def fin_flush)
  define d where "d = flush (l / ln 2)"
  have "\<bar>l\<bar> * 1 \<le> \<bar>l\<bar> * (2 * ln 2)"
    using ln2_bounds by (intro mult_left_mono) simp_all
  then have "\<bar>l / ln 2\<bar> \<le> 2 * \<bar>l\<bar>"
    using ln2_bounds by (simp add: field_simps abs_mult)
  with l have "\<bar>l / ln 2\<bar> \<le> 2150"
    by simp
  then have d: "\<bar>d\<bar> \<le> 2150" and ld: "jdiv (Num l) (Num (ln 2)) = Num d"
    using ln2_bounds flush_abs_le [of "l / ln 2"] by (simp_all add: d_def fin_flush)
  define m where "m = flush (12 * d)"
  from d have m: "\<bar>m\<bar> \<le> 25800" and dm: "jmul (Num 12) (Num d) = Num m"
    using flush_abs_le [of "12 * d"] by (simp_all add: m_def fin_flush)
  define x where "x = flush (m + 69)"
  from m have x: "\<bar>x\<bar> \<le> 30000" and mx: "jadd (Num m) (Num 69) = Num x"
    using flush_abs_le [of "m + 69"] by (simp_all add: x_def fin_flush)
  have "noteNumOf (Num r) = Num x"
    by (simp only: noteNumOf_def dq lq jlog_2 ld dm mx)
  with x show ?thesis
    by blast
qed


subsection \<open>The fields computed from a finite fractional MIDI number\<close>

lemma floor_div12: "\<lfloor>real_of_int m / 12\<rfloor> = m div 12"
  using floor_divide_of_int_eq [of m 12, where ?'a = real] by simp

lemma ceiling_div12: "\<lceil>real_of_int m / 12\<rceil> = - ((- m) div 12)"
proof -
  have "\<lceil>real_of_int m / 12\<rceil> = - \<lfloor>real_of_int (- m) / 12\<rfloor>"
    by (simp add: ceiling_def)
  then show ?thesis
    by (simp only: floor_div12)
qed

lemma trunc_rem12: "real_of_int m - 12 * of_int (trunc (of_int m / 12)) = of_int (js_rem m 12)"
proof (cases "0 \<le> m")
  case True
  then have "trunc (real_of_int m / 12) = m div 12"
    by (simp add: trunc_def floor_div12)
  moreover from True have "js_rem m 12 = m mod 12"
    by (cases "m = 0") (simp_all add: js_rem_def)
  moreover have "m - 12 * (m div 12) = m mod 12"
    by (simp add: minus_mult_div_eq_mod)
  ultimately show ?thesis
    by (metis of_int_diff of_int_mult of_int_numeral)
next
  case False
  then have "trunc (real_of_int m / 12) = - ((- m) div 12)"
    by (simp add: trunc_def ceiling_div12 field_simps)
  moreover from False have "js_rem m 12 = - ((- m) mod 12)"
    by (simp add: js_rem_def)
  moreover have "m - 12 * (- ((- m) div 12)) = - ((- m) mod 12)"
    using minus_mult_div_eq_mod [of "- m" 12] by simp
  ultimately show ?thesis
    by (metis of_int_diff of_int_mult of_int_numeral)
qed

lemma js_rem12_range: "- 12 < js_rem m 12 \<and> js_rem m 12 < 12"
proof -
  have "0 \<le> \<bar>m\<bar> mod 12" "\<bar>m\<bar> mod 12 < 12"
    by simp_all
  then show ?thesis
    by (cases "m < 0"; cases "m = 0") (simp_all add: js_rem_def)
qed

lemma js_rem12_normalise: "js_rem (js_rem m 12 + 12) 12 = m mod 12"
proof -
  have pos: "0 < js_rem m 12 + 12"
    using js_rem12_range [of m] by simp
  then have "js_rem (js_rem m 12 + 12) 12 = (js_rem m 12 + 12) mod 12"
    by (simp add: js_rem_def)
  also have "\<dots> = js_rem m 12 mod 12"
    by simp
  also have "\<dots> = m mod 12"
  proof (cases "0 \<le> m")
    case True
    then show ?thesis
      by (cases "m = 0") (simp_all add: js_rem_def)
  next
    case False
    then have "js_rem m 12 = - ((- m) mod 12)"
      by (simp add: js_rem_def)
    then show ?thesis
      by (simp add: mod_minus_eq)
  qed
  finally show ?thesis .
qed

lemma jrem_int12: "jrem (Num (of_int m)) (Num 12) = Num (of_int (js_rem m 12))"
  by (simp add: trunc_rem12)

lemma noteIndex_int:
  "jrem (jadd (jrem (Num (of_int m)) (Num 12)) (Num 12)) (Num 12) = Num (of_int (m mod 12))"
proof -
  have "\<bar>real_of_int (js_rem m 12 + 12)\<bar> \<le> 1000000"
    using js_rem12_range [of m] by simp
  then have "fin (real_of_int (js_rem m 12 + 12)) = Num (of_int (js_rem m 12 + 12))"
    by (simp only: fin_flush flush_int)
  then have "jadd (Num (of_int (js_rem m 12))) (Num 12) = Num (of_int (js_rem m 12 + 12))"
    by simp
  then show ?thesis
    by (simp only: jrem_int12 js_rem12_normalise)
qed

lemma js_index_NOTE_STRINGS:
  "js_index NOTE_STRINGS (Num (of_int (m mod 12))) = Some (NOTE_STRINGS ! nat (m mod 12))"
  by (simp add: NOTE_STRINGS_def)

lemma octave_int:
  assumes "\<bar>m\<bar> \<le> 40000"
  shows "jsub (jfloor (jdiv (Num (of_int m)) (Num 12))) (Num 1) = Num (of_int (m div 12 - 1))"
proof -
  have "\<bar>real_of_int m / 12\<bar> \<le> 1000000"
    using assms by simp
  then have "jdiv (Num (of_int m)) (Num 12) = Num (real_of_int m / 12)"
    by (simp add: fin_flush flush_int_div12)
  then have "jfloor (jdiv (Num (of_int m)) (Num 12)) = Num (of_int (m div 12))"
    by (simp add: floor_div12)
  moreover have "\<bar>real_of_int (m div 12 - 1)\<bar> \<le> 1000000"
    using assms by simp
  then have "fin (real_of_int (m div 12 - 1)) = Num (of_int (m div 12 - 1))"
    by (simp only: fin_flush flush_int)
  ultimately show ?thesis
    by (simp add: jsub_def)
qed

lemma cents_real:
  assumes "\<bar>x\<bar> \<le> 30000"
  shows "jfloor (jmul (jsub (Num x) (jround (Num x))) (Num 100)) = Num (of_int (centsOf x))"
proof -
  define d where "d = flush (x - of_int \<lfloor>x + 1 / 2\<rfloor>)"
  have "\<bar>x - of_int \<lfloor>x + 1 / 2\<rfloor>\<bar> \<le> 1"
    by linarith
  then have sub: "jsub (Num x) (jround (Num x)) = Num d" and d: "\<bar>d\<bar> \<le> 1"
    using flush_abs_le [of "x - of_int \<lfloor>x + 1 / 2\<rfloor>"] by (simp_all add: jsub_def fin_flush d_def)
  from d have "\<bar>d * 100\<bar> \<le> 1000000"
    by simp
  then have "jmul (Num d) (Num 100) = Num (flush (d * 100))"
    by (simp add: fin_flush)
  with sub show ?thesis
    by (simp add: centsOf_def d_def)
qed

lemma centsOf_range: "- 50 \<le> centsOf x \<and> centsOf x \<le> 49"
proof -
  define d where "d = flush (x - of_int \<lfloor>x + 1 / 2\<rfloor>)"
  have "- (1 / 2) \<le> x - of_int \<lfloor>x + 1 / 2\<rfloor>" "x - of_int \<lfloor>x + 1 / 2\<rfloor> < 1 / 2"
    by linarith+
  then have "- (1 / 2) \<le> d" "d < 1 / 2"
    by (simp_all add: d_def flush_def)
  then have "- 50 \<le> d * 100" "d * 100 < 50"
    by simp_all
  then have "- 50 \<le> flush (d * 100)" "flush (d * 100) < 50"
    by (simp_all add: flush_def)
  then have "- 50 \<le> \<lfloor>flush (d * 100)\<rfloor>" "\<lfloor>flush (d * 100)\<rfloor> < 50"
    by (simp_all add: le_floor_iff floor_less_iff)
  then show ?thesis
    by (simp add: centsOf_def d_def)
qed

lemma noteData_Num:
  assumes "\<bar>x\<bar> \<le> 30000"
  shows "noteData freq (Num x) =
    \<lparr>note = Some (NOTE_STRINGS ! nat (\<lfloor>x + 1 / 2\<rfloor> mod 12)),
     octave = Num (of_int (\<lfloor>x + 1 / 2\<rfloor> div 12 - 1)),
     cents = Num (of_int (centsOf x)),
     frequency = freq, isSilent = False\<rparr>"
proof -
  have "\<bar>\<lfloor>x + 1 / 2\<rfloor>\<bar> \<le> 40000"
    using assms by linarith
  then have o: "jsub (jfloor (jdiv (jround (Num x)) (Num 12))) (Num 1)
      = Num (of_int (\<lfloor>x + 1 / 2\<rfloor> div 12 - 1))"
    using octave_int [of "\<lfloor>x + 1 / 2\<rfloor>"] by simp
  have i: "jrem (jadd (jrem (jround (Num x)) (Num 12)) (Num 12)) (Num 12)
      = Num (of_int (\<lfloor>x + 1 / 2\<rfloor> mod 12))"
    using noteIndex_int [of "\<lfloor>x + 1 / 2\<rfloor>"] by simp
  show ?thesis
    unfolding noteData_def Let_def
    by (simp only: o i cents_real [OF assms] js_index_NOTE_STRINGS)
qed


text \<open>
  Claim C10, on the frequencies whose quotient by 440 does not underflow to zero. For every
  finite frequency above \<open>440 / 2 ^ 1075\<close>, which is every positive normal binary64
  number and in particular every frequency between 20 and 5000, the only ones that the tuner
  component passes to the function, the cents are an integer from \<open>-50\<close> to \<open>49\<close> and
  the note is the entry of the table of note names at an index below 12.
\<close>

theorem C10_output_range:
  assumes "440 / 2 ^ 1075 < r" "r < 2 ^ 1024"
  shows "\<exists>c i. cents (getNoteFromFrequency (Num r)) = Num (of_int c) \<and> - 50 \<le> c \<and> c \<le> 49
    \<and> i < 12 \<and> note (getNoteFromFrequency (Num r)) = Some (NOTE_STRINGS ! i)"
proof -
  from assms(1) have "0 < r"
    by (smt (verit) divide_pos_pos zero_less_power)
  then have g: "getNoteFromFrequency (Num r) = noteData (Num r) (noteNumOf (Num r))"
    by (simp add: getNoteFromFrequency_def)
  from assms obtain x where x: "noteNumOf (Num r) = Num x" "\<bar>x\<bar> \<le> 30000"
    using noteNumOf_finite by blast
  have "nat (\<lfloor>x + 1 / 2\<rfloor> mod 12) < 12"
    by simp
  then show ?thesis
    using centsOf_range [of x] by (simp only: g x noteData_Num [OF x(2)]) auto
qed

theorem C10_output_range_witness:
  "(440::real) / 2 ^ 1075 < 440 \<and> (440::real) < 2 ^ 1024
   \<and> (\<exists>c i. cents (getNoteFromFrequency (Num 440)) = Num (of_int c) \<and> - 50 \<le> c \<and> c \<le> 49
         \<and> i < 12 \<and> note (getNoteFromFrequency (Num 440)) = Some (NOTE_STRINGS ! i))"
proof -
  have h: "(440::real) / 2 ^ 1075 < 440" "(440::real) < 2 ^ 1024"
    by simp_all
  from C10_output_range [OF h] h show ?thesis
    by (intro conjI)
qed

text \<open>
  Claim C10 as it is stated, for every finite positive frequency, fails at the smallest
  positive binary64 number, \<open>1 / 2 ^ 1074\<close> (\<^verbatim>\<open>Number.MIN_VALUE\<close>). The input is finite
  and positive, so the guard lets it pass; \<^verbatim>\<open>frequency / 440\<close> underflows to zero,
  \<^verbatim>\<open>Math.log(0)\<close> is \<^verbatim>\<open>-Infinity\<close>, and so are \<^verbatim>\<open>noteNum\<close> and \<^verbatim>\<open>midi\<close>; the cents
  \<^verbatim>\<open>Math.floor((noteNum - midi) * 100)\<close> and the note index are \<^verbatim>\<open>NaN\<close>, and the note
  read from the table is \<^verbatim>\<open>undefined\<close>.
\<close>

theorem C10_subnormal_frequency:
  "isFinite (Num (1 / 2 ^ 1074)) \<and> jlt (Num 0) (Num (1 / 2 ^ 1074))
   \<and> getNoteFromFrequency (Num (1 / 2 ^ 1074)) =
       \<lparr>note = None, octave = NegInf, cents = NaN, frequency = Num (1 / 2 ^ 1074),
        isSilent = False\<rparr>"
  using ln2_bounds
  by (simp add: getNoteFromFrequency_def noteNumOf_def noteData_def jlog_2 fin_def jsub_def Let_def)

text \<open>
  Claim C8. For every frequency that is not finite (\<^verbatim>\<open>NaN\<close> or an infinity) or not positive,
  \<open>getNoteFromFrequency\<close> returns the default: note A, octave 4, 0 cents, frequency 440,
  silent. For every finite positive frequency it returns a result that is not silent and
  carries the frequency it was given. No operation of the function raises, so the model has
  no error result.
\<close>

theorem C8_default:
  "(freq = NaN \<or> freq = PosInf \<or> freq = NegInf \<or> (\<exists>r. freq = Num r \<and> r \<le> 0)
      \<longrightarrow> getNoteFromFrequency freq =
        \<lparr>note = Some A, octave = Num 4, cents = Num 0, frequency = Num 440, isSilent = True\<rparr>)
   \<and> ((\<exists>r. freq = Num r \<and> 0 < r)
      \<longrightarrow> \<not> isSilent (getNoteFromFrequency freq)
        \<and> frequency (getNoteFromFrequency freq) = freq)"
  by (auto simp: getNoteFromFrequency_def noteData_def Let_def)

theorem C8_default_witness:
  "getNoteFromFrequency NaN =
      \<lparr>note = Some A, octave = Num 4, cents = Num 0, frequency = Num 440, isSilent = True\<rparr>
   \<and> getNoteFromFrequency (Num (- 3)) =
      \<lparr>note = Some A, octave = Num 4, cents = Num 0, frequency = Num 440, isSilent = True\<rparr>
   \<and> \<not> isSilent (getNoteFromFrequency (Num 440))
   \<and> frequency (getNoteFromFrequency (Num 440)) = Num 440"
  using C8_default [of NaN] C8_default [of "Num (- 3)"] C8_default [of "Num 440"] by simp

subsection \<open>From a MIDI pitch to its frequency and back\<close>









section \<open>Properties of the rounding\<close>

subsection \<open>Rounding to the nearest integer\<close>

lemma rne_of_int: "rne (of_int k) = k"
  by (simp add: rne_def)

lemma rne_ge: "of_int k \<le> y \<Longrightarrow> k \<le> rne y"
proof -
  assume "of_int k \<le> y"
  then have "k \<le> \<lfloor>y\<rfloor>"
    by (simp add: le_floor_iff)
  then show ?thesis
    by (simp add: rne_def Let_def)
qed

lemma rne_le: "y \<le> of_int k \<Longrightarrow> rne y \<le> k"
proof (cases "y = of_int k")
  case True
  then show ?thesis by (simp add: rne_of_int)
next
  case False
  assume "y \<le> of_int k"
  with False have "y < of_int k"
    by simp
  then have "\<lfloor>y\<rfloor> < k"
    by (simp add: floor_less_iff)
  then show ?thesis
    by (simp add: rne_def Let_def)
qed

subsection \<open>Rounding to a floating-point format\<close>

text \<open>
  The binade of a number: bounds on \<open>\<lfloor>log 2 \<bar>x\<bar>\<rfloor>\<close>, and the magnitude of a number
  \<open>m * 2 ^ e\<close> whose significand \<open>m\<close> has at most \<open>p\<close> bits.
\<close>

lemma floor_log_less:
  assumes "x \<noteq> 0" "\<bar>x\<bar> < 2 powr of_int n"
  shows "\<lfloor>log 2 \<bar>x\<bar>\<rfloor> < n"
proof -
  from assms have "log 2 \<bar>x\<bar> < of_int n"
    by (simp add: log_less_iff)
  then show ?thesis
    by (simp add: floor_less_iff)
qed

lemma powr_floor_log_le:
  assumes "x \<noteq> 0"
  shows "2 powr of_int \<lfloor>log 2 \<bar>x\<bar>\<rfloor> \<le> \<bar>x\<bar>"
proof -
  have "(2::real) powr of_int \<lfloor>log 2 \<bar>x\<bar>\<rfloor> \<le> 2 powr log 2 \<bar>x\<bar>"
    by (rule powr_mono) simp_all
  also have "\<dots> = \<bar>x\<bar>"
    using assms by simp
  finally show ?thesis .
qed

lemma powr_int_diff:
  assumes "j \<le> e"
  shows "(2::real) powr of_int e = of_int (2 ^ nat (e - j)) * 2 powr of_int j"
proof -
  have "(2::real) powr of_int e = 2 powr (of_int (e - j) + of_int j)"
    by simp
  also have "\<dots> = 2 powr of_int (e - j) * 2 powr of_int j"
    by (simp only: powr_add)
  also have "(2::real) powr of_int (e - j) = 2 ^ nat (e - j)"
    by (subst powr_real_of_int) (use assms in simp_all)
  finally show ?thesis
    by simp
qed

lemma abs_less_powr:
  assumes "\<bar>m\<bar> < 2 ^ p"
  shows "\<bar>real_of_int m * 2 powr of_int e\<bar> < 2 powr of_int (int p + e)"
proof -
  from assms have "real_of_int \<bar>m\<bar> < real_of_int (2 ^ p)"
    by (simp only: of_int_less_iff)
  then have "\<bar>real_of_int m\<bar> < 2 ^ p"
    by simp
  then have "\<bar>real_of_int m\<bar> * 2 powr of_int e < 2 ^ p * 2 powr of_int e"
    by (simp add: mult_strict_right_mono)
  also have "(2::real) ^ p * 2 powr of_int e = 2 powr of_int (int p + e)"
    by (simp add: powr_add powr_realpow)
  finally show ?thesis
    by (simp add: abs_mult)
qed

text \<open>
  A number of the format, \<open>m * 2 ^ e\<close> with a significand of at most \<open>p\<close> bits and an
  exponent that the format has, is left as it is by the rounding, and the rounding of a
  positive number does not cross it: rounding is monotone at the numbers of the format.
\<close>

lemma roundp_fixed:
  assumes "x = of_int m * 2 powr of_int e" "\<bar>m\<bar> < 2 ^ p" "emin - (int p - 1) \<le> e"
  shows "roundp p emin x = x"
proof (cases "x = 0")
  case True
  then show ?thesis by (simp add: roundp_def)
next
  case False
  define j where "j = max \<lfloor>log 2 \<bar>x\<bar>\<rfloor> emin - (int p - 1)"
  have "\<bar>x\<bar> < 2 powr of_int (int p + e)"
    unfolding assms(1) using assms(2) by (rule abs_less_powr)
  with False have "\<lfloor>log 2 \<bar>x\<bar>\<rfloor> < int p + e"
    by (rule floor_log_less)
  with assms(3) have je: "j \<le> e"
    by (simp add: j_def)
  have "x = of_int m * (of_int (2 ^ nat (e - j)) * 2 powr of_int j)"
    unfolding assms(1) using powr_int_diff [OF je] by simp
  then have "x / 2 powr of_int j = of_int (m * 2 ^ nat (e - j))"
    by simp
  then have "rne (x / 2 powr of_int j) = m * 2 ^ nat (e - j)"
    by (simp only: rne_of_int)
  then have "of_int (rne (x / 2 powr of_int j)) * 2 powr of_int j = x"
    using \<open>x = of_int m * (of_int (2 ^ nat (e - j)) * 2 powr of_int j)\<close> by simp
  with False show ?thesis
    by (simp add: roundp_def Let_def j_def)
qed

lemma roundp_ge:
  assumes "a = of_int m * 2 powr of_int e" "\<bar>m\<bar> < 2 ^ p" "emin - (int p - 1) \<le> e"
    and "0 < p" "0 < x" "a \<le> x"
  shows "a \<le> roundp p emin x"
proof -
  define j where "j = max \<lfloor>log 2 \<bar>x\<bar>\<rfloor> emin - (int p - 1)"
  define u :: real where "u = 2 powr of_int j"
  have u: "0 < u"
    by (simp add: u_def)
  have r: "roundp p emin x = of_int (rne (x / u)) * u"
    using assms(5) by (simp add: roundp_def Let_def j_def u_def)
  show ?thesis
  proof (cases "j \<le> e")
    case True
    have "a = of_int (m * 2 ^ nat (e - j)) * u"
      unfolding assms(1) u_def using powr_int_diff [OF True] by simp
    moreover from this assms(6) u have "of_int (m * 2 ^ nat (e - j)) \<le> x / u"
      by (simp add: pos_le_divide_eq)
    then have "m * 2 ^ nat (e - j) \<le> rne (x / u)"
      by (rule rne_ge)
    then have "real_of_int (m * 2 ^ nat (e - j)) \<le> real_of_int (rne (x / u))"
      by (simp only: of_int_le_iff)
    then have "real_of_int (m * 2 ^ nat (e - j)) * u \<le> real_of_int (rne (x / u)) * u"
      using u by (simp add: mult_right_mono)
    ultimately show ?thesis
      by (simp only: r)
  next
    case False
    with assms(3) have jl: "j = \<lfloor>log 2 \<bar>x\<bar>\<rfloor> - (int p - 1)" and big: "int p + e \<le> \<lfloor>log 2 \<bar>x\<bar>\<rfloor>"
      by (simp_all add: j_def max_def split: if_splits)
    have "\<bar>a\<bar> < 2 powr of_int (int p + e)"
      unfolding assms(1) using assms(2) by (rule abs_less_powr)
    also have "\<dots> \<le> 2 powr of_int \<lfloor>log 2 \<bar>x\<bar>\<rfloor>"
      using big by (simp only: powr_le_cancel_iff of_int_le_iff)
    finally have a: "a < 2 powr of_int \<lfloor>log 2 \<bar>x\<bar>\<rfloor>"
      by simp
    have jj: "j \<le> \<lfloor>log 2 \<bar>x\<bar>\<rfloor>"
      using assms(4) by (simp add: jl)
    have e: "2 powr of_int \<lfloor>log 2 \<bar>x\<bar>\<rfloor> = of_int (2 ^ nat (\<lfloor>log 2 \<bar>x\<bar>\<rfloor> - j)) * u"
      unfolding u_def by (rule powr_int_diff [OF jj])
    have "2 powr of_int \<lfloor>log 2 \<bar>x\<bar>\<rfloor> \<le> \<bar>x\<bar>"
      using assms(5) by (intro powr_floor_log_le) simp
    with assms(5) e have "of_int (2 ^ nat (\<lfloor>log 2 \<bar>x\<bar>\<rfloor> - j)) * u \<le> x"
      by simp
    with u have "of_int (2 ^ nat (\<lfloor>log 2 \<bar>x\<bar>\<rfloor> - j)) \<le> x / u"
      by (simp add: pos_le_divide_eq)
    then have "2 ^ nat (\<lfloor>log 2 \<bar>x\<bar>\<rfloor> - j) \<le> rne (x / u)"
      by (rule rne_ge)
    then have "real_of_int (2 ^ nat (\<lfloor>log 2 \<bar>x\<bar>\<rfloor> - j)) \<le> real_of_int (rne (x / u))"
      by (simp only: of_int_le_iff)
    then have "real_of_int (2 ^ nat (\<lfloor>log 2 \<bar>x\<bar>\<rfloor> - j)) * u \<le> real_of_int (rne (x / u)) * u"
      using u by (simp add: mult_right_mono)
    with a e show ?thesis
      by (simp only: r)
  qed
qed

lemma roundp_le:
  assumes "a = of_int m * 2 powr of_int e" "\<bar>m\<bar> < 2 ^ p" "emin - (int p - 1) \<le> e"
    and "0 < x" "x \<le> a"
  shows "roundp p emin x \<le> a"
proof -
  define j where "j = max \<lfloor>log 2 \<bar>x\<bar>\<rfloor> emin - (int p - 1)"
  define u :: real where "u = 2 powr of_int j"
  have u: "0 < u"
    by (simp add: u_def)
  have r: "roundp p emin x = of_int (rne (x / u)) * u"
    using assms(4) by (simp add: roundp_def Let_def j_def u_def)
  have "j \<le> e"
  proof (rule ccontr)
    assume "\<not> j \<le> e"
    with assms(3) have big: "int p + e \<le> \<lfloor>log 2 \<bar>x\<bar>\<rfloor>"
      by (simp_all add: j_def max_def split: if_splits)
    have "\<bar>a\<bar> < 2 powr of_int (int p + e)"
      unfolding assms(1) using assms(2) by (rule abs_less_powr)
    also have "\<dots> \<le> 2 powr of_int \<lfloor>log 2 \<bar>x\<bar>\<rfloor>"
      using big by (simp only: powr_le_cancel_iff of_int_le_iff)
    also have "\<dots> \<le> \<bar>x\<bar>"
      using assms(4) by (intro powr_floor_log_le) simp
    finally show False
      using assms(4,5) by simp
  qed
  then have "a = of_int (m * 2 ^ nat (e - j)) * u"
    unfolding assms(1) u_def using powr_int_diff [of j e] by simp
  moreover from this assms(5) u have "x / u \<le> of_int (m * 2 ^ nat (e - j))"
    by (simp add: pos_divide_le_eq)
  then have "rne (x / u) \<le> m * 2 ^ nat (e - j)"
    by (rule rne_le)
  then have "real_of_int (rne (x / u)) \<le> real_of_int (m * 2 ^ nat (e - j))"
    by (simp only: of_int_le_iff)
  then have "real_of_int (rne (x / u)) * u \<le> real_of_int (m * 2 ^ nat (e - j)) * u"
    using u by (simp add: mult_right_mono)
  ultimately show ?thesis
    by (simp only: r)
qed

subsection \<open>Binary64\<close>

text \<open>
  A fraction \<open>m / 2 ^ n\<close> whose numerator has at most 53 bits is a binary64 number when
  \<open>n\<close> is at most 1074. Integers below \<open>2 ^ 53\<close> in magnitude are computed exactly.
\<close>

lemma dyadic_form: "real_of_int m / 2 ^ n = of_int m * 2 powr of_int (- int n)"
  by (simp add: powr_minus_divide powr_realpow)

lemma round64_dyadic:
  assumes "\<bar>m\<bar> < 2 ^ 53" "n \<le> 1074"
  shows "round64 (of_int m / 2 ^ n) = of_int m / 2 ^ n"
  unfolding round64_def using dyadic_form assms(1)
  by (rule roundp_fixed) (use assms(2) in simp)

lemma round64_ge:
  assumes "\<bar>m\<bar> < 2 ^ 53" "n \<le> 1074" "0 < x" "of_int m / 2 ^ n \<le> x"
  shows "of_int m / 2 ^ n \<le> round64 x"
  unfolding round64_def using dyadic_form assms(1)
  by (rule roundp_ge) (use assms(2-) in simp_all)

lemma round64_le:
  assumes "\<bar>m\<bar> < 2 ^ 53" "n \<le> 1074" "0 < x" "x \<le> of_int m / 2 ^ n"
  shows "round64 x \<le> of_int m / 2 ^ n"
  unfolding round64_def using dyadic_form assms(1)
  by (rule roundp_le) (use assms(2-) in simp_all)

text \<open>
  The binary64 numbers that occur in the examples below, and bounds on the constants
  \<^verbatim>\<open>0.01\<close> and \<^verbatim>\<open>0.9\<close> of the pitch detector, which are not binary fractions.
\<close>

lemma round64_vals:
  "round64 0 = 0" "round64 1 = 1" "round64 (1 / 2) = 1 / 2" "round64 (3 / 2) = 3 / 2"
  "round64 (1 / 4) = 1 / 4" "round64 (5 / 4) = 5 / 4" "round64 (5 / 64) = 5 / 64"
  "round64 (1 / 8) = 1 / 8" "round64 (3 / 16) = 3 / 16" "round64 (7 / 8) = 7 / 8"
  "round64 (13 / 16) = 13 / 16" "round64 22050 = 22050"
  using round64_dyadic [of 0 0] round64_dyadic [of 1 0] round64_dyadic [of 1 1]
    round64_dyadic [of 3 1] round64_dyadic [of 1 2] round64_dyadic [of 5 2]
    round64_dyadic [of 5 6] round64_dyadic [of 1 3] round64_dyadic [of 3 4]
    round64_dyadic [of 7 3] round64_dyadic [of 13 4] round64_dyadic [of 22050 0]
  by simp_all

lemma round64_consts:
  "0 < round64 (1 / 100)" "round64 (1 / 100) \<le> 1 / 64" "7 / 8 \<le> round64 (9 / 10)"
proof -
  have "1 / 128 \<le> round64 (1 / 100)"
    using round64_ge [of 1 7 "1 / 100"] by simp
  then show "0 < round64 (1 / 100)"
    by simp
  show "round64 (1 / 100) \<le> 1 / 64"
    using round64_le [of 1 6 "1 / 100"] by simp
  show "7 / 8 \<le> round64 (9 / 10)"
    using round64_ge [of 7 3 "9 / 10"] by simp
qed

lemma fin_int:
  assumes "\<bar>k\<bar> < 2 ^ 53"
  shows "fin (of_int k) = Num (of_int k)"
proof (cases "k = 0")
  case True
  then show ?thesis by (simp add: fin_def)
next
  case False
  then have "1 \<le> \<bar>real_of_int k\<bar>"
    by (rule abs_of_int_ge_1)
  moreover from assms have "real_of_int \<bar>k\<bar> < real_of_int (2 ^ 53)"
    by (simp only: of_int_less_iff)
  then have "\<bar>real_of_int k\<bar> < 2 ^ 53"
    by simp
  ultimately show ?thesis
    by (simp add: fin_def)
qed

lemma round64_int: "\<bar>k\<bar> < 2 ^ 53 \<Longrightarrow> round64 (of_int k) = of_int k"
  using round64_dyadic [of k 0] by simp

lemma r64_fin_int: "\<bar>k\<bar> < 2 ^ 53 \<Longrightarrow> r64 (fin (of_int k)) = Num (of_int k)"
  by (simp add: fin_int round64_int)


section \<open>Properties of the pitch detector\<close>

lemma scan_no_good:
  assumes "\<forall>lag \<in> set [offset..<length buf div 2 - 1].
      \<not> jlt (Num (round64 (9 / 10))) (correlationAt buf lag)"
    and "\<not> foundGoodCorrelation"
    and "\<not> (jlt (Num (round64 (1 / 100))) bestCorrelation \<and> bestOffset > 0)"
  shows "scan buf sampleRate offset bestOffset bestCorrelation foundGoodCorrelation correlations
    lastCorrelation = Num (- 1)"
  using assms
proof (induction buf sampleRate offset bestOffset bestCorrelation foundGoodCorrelation correlations
    lastCorrelation rule: scan.induct)
  case (1 buf sampleRate offset bestOffset bestCorrelation foundGoodCorrelation correlations
    lastCorrelation)
  show ?case
  proof (cases "int offset < int (length buf div 2) - 1")
    case True
    then have in_range: "offset \<in> set [offset..<length buf div 2 - 1]"
      by auto
    with "1.prems"(1) have low: "\<not> jlt (Num (round64 (9 / 10))) (correlationAt buf offset)"
      by blast
    have rest: "\<forall>lag \<in> set [offset + 1..<length buf div 2 - 1].
        \<not> jlt (Num (round64 (9 / 10))) (correlationAt buf lag)"
      using "1.prems"(1) by auto
    have "scan buf sampleRate (offset + 1) bestOffset bestCorrelation foundGoodCorrelation
        (correlations[offset := to32 (correlationAt buf offset)]) (correlationAt buf offset)
        = Num (- 1)"
      using True low "1.prems"(2,3) rest by (intro "1.IH"(3)) auto
    with True low "1.prems"(2) show ?thesis
      by (subst scan.simps) auto
  next
    case False
    with "1.prems"(3) show ?thesis
      by (subst scan.simps) auto
  qed
qed







subsection \<open>No lag above the threshold\<close>

lemma correlationAt_buf16:
  "map (correlationAt buf16) [2..<9] =
     [Num (7 / 8), Num (13 / 16), Num (13 / 16), Num (13 / 16), Num (13 / 16), Num (13 / 16),
      Num (13 / 16)]"
  by (simp add: correlationAt_def buf16_def upt_rec_numeral jadd64_def jsub64_def jdiv64_def
      jsub_def fin_def round64_vals)

lemma corr16:
  "correlationAt buf16 2 = Num (7 / 8)" "correlationAt buf16 3 = Num (13 / 16)"
  "correlationAt buf16 4 = Num (13 / 16)" "correlationAt buf16 5 = Num (13 / 16)"
  "correlationAt buf16 6 = Num (13 / 16)" "correlationAt buf16 7 = Num (13 / 16)"
  "correlationAt buf16 8 = Num (13 / 16)"
  using correlationAt_buf16 by (simp_all add: upt_rec_numeral)

lemma rms_buf16: "rms buf16 = Num (round64 (sqrt (5 / 64)))"
  by (simp add: rms_def sumSquares_def buf16_def jadd64_def jmul64_def jdiv64_def jsqrt64_def
      fin_def round64_vals)

lemma rms_buf16_loud: "\<not> jlt (rms buf16) (Num (round64 (1 / 100)))"
proof -
  have "(1 / 4)\<^sup>2 \<le> (5 / 64 :: real)"
    by (simp add: power2_eq_square)
  then have s: "1 / 4 \<le> sqrt (5 / 64 :: real)"
    by (rule real_le_rsqrt)
  then have "1 / 4 \<le> round64 (sqrt (5 / 64))"
    using round64_ge [of 1 2 "sqrt (5 / 64)"] by simp
  with round64_consts(2) show ?thesis
    by (simp add: rms_buf16)
qed

lemma low16:
  "\<forall>lag \<in> set [2..<length buf16 div 2 - 1]. \<not> jlt (Num (round64 (9 / 10))) (correlationAt buf16 lag)"
proof -
  have "length buf16 div 2 - 1 = 7"
    by (simp add: buf16_def)
  then show ?thesis
    using round64_consts(3) by (simp add: upt_rec_numeral corr16)
qed

text \<open>
  Claim C2, as the code has it. For every buffer whose RMS is not below the noise floor: if
  the correlation of no candidate lag (from 2 up to, but excluding, half the buffer length
  minus 1) exceeds the threshold \<^verbatim>\<open>0.9\<close>, \<open>autoCorrelate\<close> returns the no-pitch value
  \<open>-1\<close>, whatever the highest correlation among the lags is. The RMS and the correlations
  are the numbers that the function computes in binary64.
\<close>

theorem C2_no_good_lag:
  assumes "\<not> jlt (rms buf) (Num (round64 (1 / 100)))"
    and "\<forall>lag \<in> set [2..<length buf div 2 - 1].
      \<not> jlt (Num (round64 (9 / 10))) (correlationAt buf lag)"
  shows "autoCorrelate buf sampleRate = Num (- 1)"
proof -
  have "\<not> (jlt (Num (round64 (1 / 100))) (Num 0) \<and> (- 1 :: int) > 0)"
    by simp
  with assms show ?thesis
    by (simp add: autoCorrelate_def scan_no_good)
qed

theorem C2_no_good_lag_witness:
  "\<not> jlt (rms buf16) (Num (round64 (1 / 100)))
   \<and> [2..<length buf16 div 2 - 1] = [2, 3, 4, 5, 6]
   \<and> map (correlationAt buf16) [2, 3, 4, 5, 6] =
       [Num (7 / 8), Num (13 / 16), Num (13 / 16), Num (13 / 16), Num (13 / 16)]
   \<and> \<not> jlt (Num (round64 (9 / 10))) (Num (7 / 8))
   \<and> \<not> jlt (Num (round64 (9 / 10))) (Num (13 / 16))
   \<and> autoCorrelate buf16 (Num 44100) = Num (- 1)"
proof -
  have "[2..<length buf16 div 2 - 1] = [2, 3, 4, 5, 6]"
    by (simp add: buf16_def upt_rec_numeral)
  with C2_no_good_lag [OF rms_buf16_loud low16] rms_buf16_loud round64_consts(3) show ?thesis
    by (simp add: corr16)
qed

text \<open>
  The fallback of claim C2 as it is stated fails. The buffer \<open>buf16\<close> has RMS above the
  noise floor; the correlations of its lags are \<open>7 / 8\<close> at lag 2 and \<open>13 / 16\<close> at the
  others, none above \<^verbatim>\<open>0.9\<close> and the highest above \<^verbatim>\<open>0.01\<close>. The claim has the detector
  return the sampling rate divided by lag 2, which is 22050 at 44100 samples per second; the
  code returns \<open>-1\<close>.
\<close>

theorem C2_fallback_counterexample:
  "\<not> jlt (rms buf16) (Num (round64 (1 / 100)))
   \<and> map (correlationAt buf16) [2, 3, 4, 5, 6, 7, 8] =
       [Num (7 / 8), Num (13 / 16), Num (13 / 16), Num (13 / 16), Num (13 / 16), Num (13 / 16),
        Num (13 / 16)]
   \<and> \<not> jlt (Num (round64 (9 / 10))) (Num (7 / 8))
   \<and> jlt (Num (round64 (1 / 100))) (Num (7 / 8))
   \<and> autoCorrelate buf16 (Num 44100) = Num (- 1) \<and> spec_fallback buf16 (Num 44100) = Num 22050
   \<and> autoCorrelate buf16 (Num 44100) \<noteq> spec_fallback buf16 (Num 44100)"
proof -
  have a: "autoCorrelate buf16 (Num 44100) = Num (- 1)"
    using rms_buf16_loud low16 by (simp add: autoCorrelate_def scan_no_good)
  have l: "length buf16 div 2 = 8"
    by (simp add: buf16_def)
  then have "bestLag buf16 [3..<length buf16 div 2 + 1] 2 = 2"
    by (simp add: bestLag_def upt_rec_numeral corr16)
  then have b: "spec_fallback buf16 (Num 44100) = Num 22050"
    using round64_consts(2) by (simp add: spec_fallback_def l corr16 jdiv64_def fin_def round64_vals)
  from a b rms_buf16_loud round64_consts show ?thesis
    by (simp add: corr16)
qed


section \<open>Properties of the metronome engine\<close>










section \<open>Properties of the polyrhythm grid\<close>

subsection \<open>Greatest common divisor and least common multiple\<close>

text \<open>
  On step counts that are not negative the recursion of the source computes the greatest
  common divisor.
\<close>

lemma js_rem_nonneg: "0 \<le> a \<Longrightarrow> 0 \<le> b \<Longrightarrow> js_rem a b = a mod b"
  by (cases "a = 0") (simp_all add: js_rem_def)

lemma gcd_js_pos: "0 \<le> a \<Longrightarrow> 0 \<le> b \<Longrightarrow> gcd_js a b = gcd a b"
proof (induction a b rule: gcd_js.induct)
  case (1 a b)
  show ?case
  proof (cases "b = 0")
    case True
    with "1.prems" show ?thesis by (simp add: gcd_js.simps)
  next
    case False
    with "1.prems" have r: "js_rem a b = a mod b" "0 \<le> a mod b"
      by (simp_all add: js_rem_nonneg)
    with False "1.IH" "1.prems" have "gcd_js b (js_rem a b) = gcd b (a mod b)"
      by simp
    also have "\<dots> = gcd a b"
      by (rule gcd_red_int [symmetric])
    finally show ?thesis
      using False by (simp add: gcd_js.simps [of a b])
  qed
qed

text \<open>
  For positive step counts whose product is below \<open>2 ^ 53\<close> the product is computed
  exactly, and so is the quotient, the greatest common divisor dividing the product.
\<close>

lemma lcm_js_pos:
  assumes "0 < a" "0 < b" "a * b < 2 ^ 53"
  shows "lcm_js (int a) (int b) = Num (real (lcm a b))"
proof -
  have p: "\<bar>int a * int b\<bar> < 2 ^ 53"
    using assms(3) by (metis abs_of_nat of_nat_mult of_nat_less_numeral_power_cancel_iff)
  have "jmul64 (Num (of_int (int a))) (Num (of_int (int b))) = r64 (fin (of_int (int a * int b)))"
    by (simp add: jmul64_def)
  also have "\<dots> = Num (of_int (int a * int b))"
    using p by (rule r64_fin_int)
  finally have "jabs (jmul64 (Num (of_int (int a))) (Num (of_int (int b))))
      = jabs (Num (of_int (int a * int b)))"
    by (rule arg_cong)
  also have "\<dots> = Num (of_int (int a * int b))"
    by simp
  finally have m: "jabs (jmul64 (Num (of_int (int a))) (Num (of_int (int b))))
      = Num (of_int (int a * int b))" .
  have g: "gcd_js (int a) (int b) = int (gcd a b)"
    by (simp add: gcd_js_pos)
  have g0: "gcd a b \<noteq> 0"
    using assms by simp
  have d: "int a * int b div int (gcd a b) = int (lcm a b)"
    by (simp add: lcm_nat_def zdiv_int)
  have "int (gcd a b) dvd int a * int b"
    by (metis dvd_mult2 gcd_dvd1 of_nat_dvd_iff of_nat_mult)
  then have q: "real_of_int (int a * int b) / real_of_int (int (gcd a b))
      = real_of_int (int a * int b div int (gcd a b))"
    by (rule real_of_int_div [symmetric])
  have "lcm a b \<le> a * b"
    using g0 by (simp add: lcm_nat_def div_le_dividend)
  with assms(3) have l: "\<bar>int (lcm a b)\<bar> < 2 ^ 53"
    by (metis abs_of_nat le_less_trans of_nat_less_numeral_power_cancel_iff)
  have nz: "\<not> (int a = 0 \<or> int b = 0)"
    using assms(1,2) by simp
  have "lcm_js (int a) (int b) =
      jdiv64 (jabs (jmul64 (Num (of_int (int a))) (Num (of_int (int b)))))
        (Num (of_int (gcd_js (int a) (int b))))"
    unfolding lcm_js_def using nz by (simp only: if_False)
  also have "\<dots> = jdiv64 (Num (of_int (int a * int b))) (Num (of_int (int (gcd a b))))"
    by (simp only: m g)
  also have "\<dots> = r64 (fin (real_of_int (int a * int b) / real_of_int (int (gcd a b))))"
    using assms(1) by (simp add: jdiv64_def)
  also have "\<dots> = r64 (fin (of_int (int (lcm a b))))"
    by (simp only: q d)
  also have "\<dots> = Num (of_int (int (lcm a b)))"
    using l by (rule r64_fin_int)
  finally show ?thesis
    by simp
qed

text \<open>The step interval of a rhythm is an exact quotient as well.\<close>

lemma stepInterval_exact:
  assumes "0 < a" "a dvd l" "l < 2 ^ 53"
  shows "jdiv64 (Num (real l)) (Num (of_int (int a))) = Num (real (l div a))"
proof -
  have "real l / real a = real (l div a)"
    using assms(2) by (simp add: real_of_nat_div)
  moreover have "l div a \<le> l"
    by (rule div_le_dividend)
  with assms(3) have "\<bar>int (l div a)\<bar> < 2 ^ 53"
    by (metis abs_of_nat le_less_trans of_nat_less_numeral_power_cancel_iff)
  then have "r64 (fin (of_int (int (l div a)))) = Num (of_int (int (l div a)))"
    by (rule r64_fin_int)
  ultimately show ?thesis
    using assms(1) by (simp add: jdiv64_def)
qed

subsection \<open>The remainder of an index by a step interval\<close>

lemma jrem_nat:
  assumes "0 < k"
  shows "jrem (Num (real i)) (Num (real k)) = Num (real (i mod k))"
proof -
  have "0 \<le> real i / real k"
    by simp
  then have "trunc (real i / real k) = \<lfloor>real i / real k\<rfloor>"
    by (simp only: trunc_def if_True)
  also have "\<dots> = int (i div k)"
    by (rule floor_divide_of_nat_eq)
  finally have t: "trunc (real i / real k) = int (i div k)" .
  have "real i = real (k * (i div k) + i mod k)"
    by simp
  then have "real i - real k * real (i div k) = real (i mod k)"
    by (simp only: of_nat_add of_nat_mult)
  with assms show ?thesis
    by (simp add: t)
qed

lemma hit_nat:
  assumes "0 < k"
  shows "(jrem (Num (real i)) (Num (real k)) = Num 0) = (i mod k = 0)"
  by (simp only: jrem_nat [OF assms]) simp

subsection \<open>The loop computes the classification of every index\<close>

lemma length_polyStep: "length (polyStep ka kb i g) = length g"
  by (simp add: polyStep_def Let_def)

lemma length_fold_polyStep: "length (fold (polyStep ka kb) is g) = length g"
  by (induction "is" arbitrary: g) (simp_all add: length_polyStep)

lemma nth_polyStep:
  assumes "j < length g" "0 < ka" "0 < kb"
  shows "polyStep (Num (real ka)) (Num (real kb)) i g ! j =
    (if j = i \<and> polyClass ka kb i \<noteq> MUTE then polyClass ka kb i else g ! j)"
  unfolding polyStep_def Let_def hit_nat [OF assms(2)] hit_nat [OF assms(3)]
  using assms(1) by (simp add: polyClass_def)

lemma nth_fold_polyStep:
  assumes "j < length g" "g ! j = MUTE" "0 < ka" "0 < kb"
  shows "fold (polyStep (Num (real ka)) (Num (real kb))) [0..<n] g ! j =
    (if j < n then polyClass ka kb j else MUTE)"
  using assms(1,2)
proof (induction n)
  case 0
  then show ?case by simp
next
  case (Suc n)
  then show ?case
    by (auto simp: nth_polyStep [OF _ assms(3,4)] length_fold_polyStep less_Suc_eq)
qed

lemma fold_polyStep_replicate:
  assumes "0 < ka" "0 < kb"
  shows "fold (polyStep (Num (real ka)) (Num (real kb))) [0..<n] (replicate n MUTE)
    = map (polyClass ka kb) [0..<n]"
  by (rule nth_equalityI)
    (simp_all add: length_fold_polyStep nth_fold_polyStep [OF _ _ assms])

lemma gridEffect_poly_eq:
  assumes "0 < a" "0 < b" "a * b < 2 ^ 32"
  shows "gridEffect_poly (int a) (int b) prevGrid =
    Inr (map (polyClass (lcm a b div a) (lcm a b div b)) [0..<lcm a b])"
proof -
  let ?L = "lcm a b"
  have "a * b < 2 ^ 53"
    using assms(3) by simp
  with assms have l: "lcm_js (int a) (int b) = Num (real ?L)"
    by (intro lcm_js_pos)
  have L0: "?L \<noteq> 0"
    using assms by (simp add: lcm_eq_0_iff)
  have "?L \<le> a * b"
    using assms by (simp add: lcm_nat_def div_le_dividend)
  with assms(3) have L32: "?L < 2 ^ 32"
    by simp
  then have "real ?L < 2 ^ 32"
    by (metis of_nat_less_numeral_power_cancel_iff)
  then have n: "array_length (Num (real ?L)) = Some ?L"
    by simp
  have L53: "?L < 2 ^ 53"
    using L32 by simp
  have ia: "jdiv64 (Num (real ?L)) (Num (of_int (int a))) = Num (real (?L div a))"
    using assms(1) _ L53 by (rule stepInterval_exact) simp
  have ib: "jdiv64 (Num (real ?L)) (Num (of_int (int b))) = Num (real (?L div b))"
    using assms(2) _ L53 by (rule stepInterval_exact) simp
  have ka: "0 < ?L div a" "0 < ?L div b"
    using assms by (simp_all add: lcm_pos_nat div_greater_zero_iff dvd_imp_le)
  have m: "max 1 (int a) = int a" "max 1 (int b) = int b"
    using assms by simp_all
  show ?thesis
    unfolding gridEffect_poly_def Let_def m l
    using L0 by (simp only: n ia ib fold_polyStep_replicate [OF ka]) simp
qed
subsection \<open>Counting the hits\<close>

lemma count_multiples:
  assumes "0 < k"
  shows "length (filter (\<lambda>i. i mod k = 0) [0..<a * k]) = a"
proof -
  have "length (filter (\<lambda>i. i mod k = 0) [0..<a * k]) = card {i \<in> set [0..<a * k]. i mod k = 0}"
    by (simp add: distinct_length_filter Int_def conj_commute)
  also have "{i \<in> set [0..<a * k]. i mod k = 0} = (\<lambda>j. j * k) ` {..<a}"
  proof (intro set_eqI iffI)
    fix i
    assume "i \<in> {i \<in> set [0..<a * k]. i mod k = 0}"
    then have i: "i < a * k" "i mod k = 0"
      by simp_all
    then have "i = (i div k) * k"
      by (simp add: mod_eq_0_iff_dvd)
    moreover from i assms have "i div k < a"
      by (simp add: less_mult_imp_div_less)
    ultimately show "i \<in> (\<lambda>j. j * k) ` {..<a}"
      by blast
  next
    fix i
    assume "i \<in> (\<lambda>j. j * k) ` {..<a}"
    then obtain j where "j < a" "i = j * k"
      by blast
    with assms show "i \<in> {i \<in> set [0..<a * k]. i mod k = 0}"
      by simp
  qed
  also have "card ((\<lambda>j. j * k) ` {..<a}) = card {..<a}"
    using assms by (intro card_image inj_onI) simp
  finally show ?thesis
    by simp
qed

lemma count_hitA_class:
  "count_hitA (map (polyClass ka kb) [0..<n]) = length (filter (\<lambda>i. i mod ka = 0) [0..<n])"
proof -
  have "(\<lambda>x. x = POLY_A \<or> x = POLY_BOTH) \<circ> polyClass ka kb = (\<lambda>i. i mod ka = 0)"
    by (auto simp: polyClass_def fun_eq_iff)
  then show ?thesis
    by (simp add: count_hitA_def filter_map)
qed

lemma count_hitB_class:
  "count_hitB (map (polyClass ka kb) [0..<n]) = length (filter (\<lambda>i. i mod kb = 0) [0..<n])"
proof -
  have "(\<lambda>x. x = POLY_B \<or> x = POLY_BOTH) \<circ> polyClass ka kb = (\<lambda>i. i mod kb = 0)"
    by (auto simp: polyClass_def fun_eq_iff)
  then show ?thesis
    by (simp add: count_hitB_def filter_map)
qed


text \<open>The grid of 3 against 4.\<close>

lemma gridEffect_poly_3_4:
  "gridEffect_poly 3 4 prevGrid =
     Inr [POLY_BOTH, MUTE, MUTE, POLY_B, POLY_A, MUTE, POLY_B, MUTE, POLY_A, POLY_B, MUTE, MUTE]"
proof -
  have l: "lcm (3::nat) 4 = 12"
    by code_simp
  have "gridEffect_poly (int 3) (int 4) prevGrid =
      Inr (map (polyClass (lcm 3 4 div 3) (lcm 3 4 div 4)) [0..<lcm 3 4])"
    by (rule gridEffect_poly_eq) simp_all
  moreover have "map (polyClass 4 3) [0..<12] =
      [POLY_BOTH, MUTE, MUTE, POLY_B, POLY_A, MUTE, POLY_B, MUTE, POLY_A, POLY_B, MUTE, MUTE]"
    by code_simp
  ultimately show ?thesis
    by (simp add: l)
qed

text \<open>
  Claim C1, as the code has it. For all positive step counts \<open>a\<close> and \<open>b\<close> up to 12, the
  polyrhythm branch of the grid effect does not throw and produces a grid of length
  \<open>L = lcm a b\<close>; index \<open>i\<close> is \<open>POLY_BOTH\<close> when \<open>i mod (L div a) = 0\<close> and
  \<open>i mod (L div b) = 0\<close>, \<open>POLY_A\<close> when only the first holds, \<open>POLY_B\<close> when only the
  second holds, and \<open>MUTE\<close> otherwise. Exactly \<open>a\<close> indices are tagged \<open>POLY_A\<close> or
  \<open>POLY_BOTH\<close> and exactly \<open>b\<close> indices are tagged \<open>POLY_B\<close> or \<open>POLY_BOTH\<close>: rhythm A
  sounds \<open>a\<close> times in the bar, once every \<open>L div a\<close> steps.
\<close>

theorem C1_poly_grid:
  assumes "0 < a" "a \<le> 12" "0 < b" "b \<le> 12"
  shows "\<exists>g. gridEffect_poly (int a) (int b) prevGrid = Inr g
    \<and> length g = lcm a b
    \<and> (\<forall>i < lcm a b. g ! i =
          (if i mod (lcm a b div a) = 0 \<and> i mod (lcm a b div b) = 0 then POLY_BOTH
           else if i mod (lcm a b div a) = 0 then POLY_A
           else if i mod (lcm a b div b) = 0 then POLY_B
           else MUTE))
    \<and> count_hitA g = a \<and> count_hitB g = b"
proof -
  let ?L = "lcm a b"
  have "a * b \<le> 12 * 12"
    using assms(2,4) by (rule mult_le_mono)
  then have small: "a * b < 2 ^ 32"
    by simp
  have ka: "0 < ?L div a" "a * (?L div a) = ?L"
    using assms by (simp_all add: lcm_pos_nat div_greater_zero_iff dvd_imp_le)
  have kb: "0 < ?L div b" "b * (?L div b) = ?L"
    using assms by (simp_all add: lcm_pos_nat div_greater_zero_iff dvd_imp_le)
  have "length (filter (\<lambda>i. i mod (?L div a) = 0) [0..<a * (?L div a)]) = a"
    using ka(1) by (rule count_multiples)
  then have ca: "length (filter (\<lambda>i. i mod (?L div a) = 0) [0..<?L]) = a"
    by (simp only: ka(2))
  have "length (filter (\<lambda>i. i mod (?L div b) = 0) [0..<b * (?L div b)]) = b"
    using kb(1) by (rule count_multiples)
  then have cb: "length (filter (\<lambda>i. i mod (?L div b) = 0) [0..<?L]) = b"
    by (simp only: kb(2))
  show ?thesis
    unfolding gridEffect_poly_eq [OF assms(1,3) small]
    by (simp add: count_hitA_class count_hitB_class ca cb polyClass_def)
qed

theorem C1_poly_grid_witness:
  "(0::nat) < 3 \<and> (3::nat) \<le> 12 \<and> (0::nat) < 4 \<and> (4::nat) \<le> 12
    \<and> (\<exists>g. gridEffect_poly 3 4 [WEAK] = Inr g
        \<and> length g = 12
        \<and> g ! 0 = POLY_BOTH \<and> g ! 4 = POLY_A \<and> g ! 9 = POLY_B \<and> g ! 5 = MUTE
        \<and> count_hitA g = 3 \<and> count_hitB g = 4)"
proof -
  have l: "lcm (3::nat) 4 = 12"
    by code_simp
  from C1_poly_grid [of 3 4 "[WEAK]"] obtain g where g:
    "gridEffect_poly 3 4 [WEAK] = Inr g" "length g = 12"
    "\<forall>i < 12. g ! i =
        (if i mod 4 = 0 \<and> i mod 3 = 0 then POLY_BOTH
         else if i mod 4 = 0 then POLY_A
         else if i mod 3 = 0 then POLY_B
         else MUTE)"
    "count_hitA g = 3" "count_hitB g = 4"
    by (auto simp: l)
  from g(3) have "g ! 0 = POLY_BOTH" "g ! 4 = POLY_A" "g ! 9 = POLY_B" "g ! 5 = MUTE"
    by simp_all
  with g(1,2,4,5) show ?thesis
    by simp
qed

text \<open>
  The count of claim C1 as it is stated fails: for 3 against 4 the grid has twelve steps and
  rhythm A sounds on three of them (indices 0, 4 and 8), not on \<open>lcm 3 4 div 3 = 4\<close>.
\<close>

theorem C1_count_counterexample:
  "gridEffect_poly 3 4 [] =
     Inr [POLY_BOTH, MUTE, MUTE, POLY_B, POLY_A, MUTE, POLY_B, MUTE, POLY_A, POLY_B, MUTE, MUTE]
   \<and> count_hitA
       [POLY_BOTH, MUTE, MUTE, POLY_B, POLY_A, MUTE, POLY_B, MUTE, POLY_A, POLY_B, MUTE, MUTE] = 3
   \<and> lcm_js 3 4 = Num 12 \<and> jdiv64 (lcm_js 3 4) (Num 3) = Num 4
   \<and> Num (real (count_hitA
         [POLY_BOTH, MUTE, MUTE, POLY_B, POLY_A, MUTE, POLY_B, MUTE, POLY_A, POLY_B, MUTE, MUTE]))
       \<noteq> jdiv64 (lcm_js 3 4) (Num 3)"
proof -
  have l: "lcm (3::nat) 4 = 12"
    by code_simp
  have "lcm_js (int 3) (int 4) = Num (real (lcm (3::nat) 4))"
    by (rule lcm_js_pos) simp_all
  then have "lcm_js 3 4 = Num 12"
    by (simp add: l)
  moreover have "jdiv64 (Num (real 12)) (Num (of_int (int 3))) = Num (real (12 div 3))"
    by (rule stepInterval_exact) simp_all
  then have "jdiv64 (Num 12) (Num 3) = Num 4"
    by simp
  ultimately show ?thesis
    by (simp add: gridEffect_poly_3_4 count_hitA_def)
qed


subsection \<open>Step counts beyond those of the pickers\<close>

text \<open>
  Beyond the step counts that the pickers offer, the grid effect is not that of the exact
  least common multiple. A product of two step counts that has more than 53 bits is
  rounded: the product of \<open>2 ^ 27 + 1\<close> and \<open>2 ^ 27 + 3\<close> ends in 899 and the total
  number of steps that is computed ends in 900. A grid of \<open>2 ^ 32\<close> steps or more cannot
  be created: \<^verbatim>\<open>new Array\<close> throws.
\<close>

lemma round64_binade:
  assumes "2 ^ 54 \<le> x" "x < 2 ^ 55"
  shows "round64 x = of_int (rne (x / 4)) * 4"
proof -
  have x: "0 < x"
    using assms(1) by (smt (verit) zero_less_power)
  have "(2::real) powr real_of_int 54 \<le> x \<and> x < 2 powr real_of_int (54 + 1)"
    using assms by (simp add: powr_realpow [symmetric])
  with x have "\<lfloor>log 2 x\<rfloor> = 54"
    by (subst floor_log_eq_powr_iff) simp_all
  with x have "\<lfloor>log 2 \<bar>x\<bar>\<rfloor> = 54"
    by simp
  moreover have "(2::real) powr 2 = 4"
    by (simp add: powr_numeral)
  ultimately show ?thesis
    using x by (simp add: round64_def roundp_def Let_def)
qed

lemma gcd_js_example: "gcd_js 134217729 134217731 = 1"
  by code_simp

lemma lcm_js_rounded: "lcm_js 134217729 134217731 = Num 18014399046352900"
proof -
  have "rne (18014399046352899 / 4) = 4503599761588225"
    by (simp add: rne_def Let_def)
  then have "round64 18014399046352899 = 18014399046352900"
    using round64_binade [of 18014399046352899] by simp
  moreover have "round64 18014399046352900 = 18014399046352900"
    using round64_dyadic [of 4503599761588225 0] round64_binade [of 18014399046352900]
    by (simp add: rne_def Let_def)
  ultimately show ?thesis
    by (simp add: lcm_js_def gcd_js_example jmul64_def jdiv64_def fin_def)
qed

lemma gridEffect_poly_RangeError: "gridEffect_poly 65536 65537 prevGrid = Inl RangeError"
proof -
  have l: "lcm (65536::nat) 65537 = 4295032832"
    by (simp add: lcm_nat_def gcd_nat.simps [of 65536] gcd_nat.simps [of 65537]
        gcd_nat.simps [of 1])
  have "lcm_js (int 65536) (int 65537) = Num (real (lcm (65536::nat) 65537))"
    by (rule lcm_js_pos) simp_all
  then have "lcm_js 65536 65537 = Num 4295032832"
    by (simp add: l)
  then show ?thesis
    by (simp add: gridEffect_poly_def Let_def)
qed


section \<open>Properties of the speed trainer\<close>

text \<open>
  After a run of the effect the ref holds the current step index, and on such a state the
  effect changes nothing.
\<close>

lemma trainerEffect_prev: "prevStepRef (trainerEffect s) = currentStepIndex s"
  by (simp add: trainerEffect_def Let_def)

lemma trainerEffect_idle: "prevStepRef s = currentStepIndex s \<Longrightarrow> trainerEffect s = s"
  by (cases "currentStepIndex s = 0") (simp_all add: trainerEffect_def Let_def)

lemma onStep_inner:
  assumes "at_step s i c b t" "i \<noteq> j" "j \<noteq> 0"
  shows "at_step (onStep j s) j c b t"
  using assms by (auto simp: at_step_def onStep_def trainerEffect_def Let_def)

lemma rest_of_bar:
  assumes "at_step s 0 c b t"
  shows "n = 0 \<or> at_step (fold onStep (map int [1..<Suc n]) s) (int n) c b t"
proof (induction n)
  case 0
  then show ?case by simp
next
  case (Suc n)
  show ?case
  proof (cases "n = 0")
    case True
    with assms show ?thesis
      by (simp add: onStep_inner)
  next
    case False
    with Suc have "at_step (fold onStep (map int [1..<Suc n]) s) (int n) c b t"
      by simp
    then have "at_step (onStep (int (Suc n)) (fold onStep (map int [1..<Suc n]) s)) (int (Suc n)) c b t"
      by (rule onStep_inner) simp_all
    then show ?thesis
      by simp
  qed
qed

lemma onStep_wrap:
  assumes "at_step s i c b t" "i \<noteq> 0" "enabled t"
  shows "at_step (onStep 0 s) 0
    (if c + 1 > barCount t then 1 else c + 1)
    (if c + 1 > barCount t then min 300 (b + increment t) else b) t"
  using assms by (auto simp: at_step_def onStep_def trainerEffect_def Let_def)

lemma bar_then_wrap:
  assumes "at_step s 0 c b t" "2 \<le> n" "enabled t"
  shows "at_step (fold onStep (map int [1..<n] @ [0]) s) 0
    (if c + 1 > barCount t then 1 else c + 1)
    (if c + 1 > barCount t then min 300 (b + increment t) else b) t"
proof -
  from assms(2) obtain m where n: "n = Suc m" "m \<noteq> 0"
    by (cases n) auto
  with rest_of_bar [OF assms(1), of m]
  have "at_step (fold onStep (map int [1..<n]) s) (int m) c b t"
    by simp
  then have "at_step (onStep 0 (fold onStep (map int [1..<n]) s)) 0
    (if c + 1 > barCount t then 1 else c + 1)
    (if c + 1 > barCount t then min 300 (b + increment t) else b) t"
    by (rule onStep_wrap) (use n assms(3) in simp_all)
  then show ?thesis
    by simp
qed

lemma wraps_Suc: "2 \<le> n \<Longrightarrow> wraps n (Suc k) = wraps n k @ map int [1..<n] @ [0]"
proof (induction k)
  case 0
  then have "[0..<n] = 0 # [1..<n]"
    by (simp add: upt_conv_Cons)
  then show ?case
    by (simp add: wraps_def bar_def)
next
  case (Suc k)
  have "concat (replicate (Suc (Suc k)) (bar n)) @ [0] = bar n @ wraps n (Suc k)"
    by (simp add: wraps_def)
  also have "\<dots> = bar n @ wraps n k @ map int [1..<n] @ [0]"
    using Suc by simp
  also have "\<dots> = wraps n (Suc k) @ map int [1..<n] @ [0]"
    by (simp add: wraps_def)
  finally show ?case
    by (simp add: wraps_def)
qed

lemma start_state:
  assumes "\<not> isPlaying_st s"
  shows "isPlaying_st (togglePlay s) \<and> currentStepIndex (togglePlay s) = - 1
    \<and> prevStepRef (togglePlay s) = - 1 \<and> bpm_st (togglePlay s) = bpm_st s
    \<and> trainerSettings (togglePlay s) = (trainerSettings s)\<lparr>currentBarTracker := 0\<rparr>"
  using assms by (simp add: togglePlay_def trainerEffect_def Let_def)

lemma first_step:
  assumes "\<not> isPlaying_st s" "enabled (trainerSettings s)" "0 < barCount (trainerSettings s)"
  shows "at_step (run (wraps n 0) (togglePlay s)) 0 1 (bpm_st s) (trainerSettings s)"
  using start_state [OF assms(1)] assms(2,3)
  by (simp add: run_def wraps_def at_step_def onStep_def trainerEffect_def Let_def)

lemma after_wraps:
  assumes "\<not> isPlaying_st s" "enabled (trainerSettings s)" "2 \<le> n"
    and "int k < barCount (trainerSettings s)"
  shows "at_step (run (wraps n k) (togglePlay s)) 0 (int k + 1) (bpm_st s) (trainerSettings s)"
  using assms(4)
proof (induction k)
  case 0
  with assms show ?case
    using first_step [of s n] by simp
next
  case (Suc k)
  then have "at_step (run (wraps n k) (togglePlay s)) 0 (int k + 1) (bpm_st s) (trainerSettings s)"
    by simp
  from bar_then_wrap [OF this assms(3,2)] Suc.prems
  show ?case
    by (simp add: run_def wraps_Suc [OF assms(3)])
qed

lemma firing_wrap:
  assumes "\<not> isPlaying_st s" "enabled (trainerSettings s)" "2 \<le> n"
    and "int k = barCount (trainerSettings s)" "0 < k"
  shows "at_step (run (wraps n k) (togglePlay s)) 0 1
    (min 300 (bpm_st s + increment (trainerSettings s))) (trainerSettings s)"
proof -
  from assms(5) obtain j where k: "k = Suc j"
    by (cases k) auto
  with assms(4) have "int j < barCount (trainerSettings s)"
    by simp
  from after_wraps [OF assms(1,2,3) this]
  have "at_step (run (wraps n j) (togglePlay s)) 0 (int j + 1) (bpm_st s) (trainerSettings s)" .
  from bar_then_wrap [OF this assms(3,2)] assms(4) k
  show ?thesis
    by (simp add: run_def wraps_Suc [OF assms(3)])
qed

text \<open>
  The speed trainer on a grid of at least two steps. The metronome is stopped and the
  trainer is enabled with \<open>barCount = 4\<close> and \<open>increment = 5\<close>. Starting
  (\<open>togglePlay\<close>) resets the bar counter to 0 and leaves the tempo as it is. While running,
  the first step 0 sets the bar counter to 1 and each wrap of the step index back to 0
  increments it: after \<open>k < 4\<close> wraps the counter is \<open>k + 1\<close> and the tempo is unchanged.
  The fourth wrap adds the increment to the tempo, clamped to at most 300, so that a tempo of
  100 becomes 105, and resets the bar counter to 1. Stopping (\<open>togglePlay\<close> on a running
  metronome) changes neither the tempo nor the trainer settings.
\<close>

lemma speed_trainer_bars:
  assumes "2 \<le> n"
    and "\<not> isPlaying_st s" "enabled (trainerSettings s)"
    and "barCount (trainerSettings s) = 4" "increment (trainerSettings s) = 5"
  shows "bpm_st (togglePlay s) = bpm_st s \<and> currentBarTracker (trainerSettings (togglePlay s)) = 0
    \<and> (\<forall>k < 4. bpm_st (run (wraps n k) (togglePlay s)) = bpm_st s
          \<and> currentBarTracker (trainerSettings (run (wraps n k) (togglePlay s))) = int k + 1)
    \<and> bpm_st (run (wraps n 4) (togglePlay s)) = min 300 (bpm_st s + 5)
    \<and> (bpm_st s = 100 \<longrightarrow> bpm_st (run (wraps n 4) (togglePlay s)) = 105)
    \<and> currentBarTracker (trainerSettings (run (wraps n 4) (togglePlay s))) = 1
    \<and> (\<forall>s'. isPlaying_st s' \<longrightarrow> bpm_st (togglePlay s') = bpm_st s'
          \<and> trainerSettings (togglePlay s') = trainerSettings s')"
proof (intro conjI allI impI)
  show "bpm_st (togglePlay s) = bpm_st s"
    "currentBarTracker (trainerSettings (togglePlay s)) = 0"
    using start_state [OF assms(2)] by simp_all
next
  fix k :: nat
  assume "k < 4"
  then have "int k < barCount (trainerSettings s)"
    using assms(4) by simp
  from after_wraps [OF assms(2,3,1) this]
  show "bpm_st (run (wraps n k) (togglePlay s)) = bpm_st s"
    "currentBarTracker (trainerSettings (run (wraps n k) (togglePlay s))) = int k + 1"
    by (simp_all add: at_step_def)
next
  have "int 4 = barCount (trainerSettings s)" "(0::nat) < 4"
    using assms(4) by simp_all
  from firing_wrap [OF assms(2,3,1) this]
  have f: "at_step (run (wraps n 4) (togglePlay s)) 0 1 (min 300 (bpm_st s + 5)) (trainerSettings s)"
    using assms(5) by simp
  then show "bpm_st (run (wraps n 4) (togglePlay s)) = min 300 (bpm_st s + 5)"
    "currentBarTracker (trainerSettings (run (wraps n 4) (togglePlay s))) = 1"
    by (simp_all add: at_step_def)
  then show "bpm_st (run (wraps n 4) (togglePlay s)) = 105" if "bpm_st s = 100"
    using that by simp
next
  fix s' :: Metronome
  assume "isPlaying_st s'"
  then show "bpm_st (togglePlay s') = bpm_st s'" "trainerSettings (togglePlay s') = trainerSettings s'"
    by (simp_all add: togglePlay_def trainerEffect_def Let_def)
qed

text \<open>The scenario on a grid of four steps: 100 BPM after three wraps, 105 after the fourth.\<close>

lemma speed_trainer_four_steps:
  "bpm_st (run (wraps 4 3) (togglePlay metronome0)) = 100
   \<and> currentBarTracker (trainerSettings (run (wraps 4 3) (togglePlay metronome0))) = 4
   \<and> bpm_st (run (wraps 4 4) (togglePlay metronome0)) = 105
   \<and> currentBarTracker (trainerSettings (run (wraps 4 4) (togglePlay metronome0))) = 1
   \<and> isPlaying_st (togglePlay metronome0)
   \<and> bpm_st (togglePlay (togglePlay metronome0)) = 100"
proof -
  have m: "\<not> isPlaying_st metronome0" "enabled (trainerSettings metronome0)"
    "barCount (trainerSettings metronome0) = 4" "increment (trainerSettings metronome0) = 5"
    "bpm_st metronome0 = 100"
    by (simp_all add: metronome0_def)
  have p: "isPlaying_st (togglePlay metronome0)"
    by (simp add: metronome0_def togglePlay_def trainerEffect_def Let_def)
  have "(2::nat) \<le> 4"
    by simp
  from speed_trainer_bars [OF this m(1-4)] m p show ?thesis
    by simp
qed

subsection \<open>A grid of a single step\<close>

lemma wraps_1: "wraps 1 k = 0 # replicate k 0"
  by (induction k) (simp_all add: wraps_def bar_def replicate_append_same)

lemma onStep_same: "currentStepIndex s = step \<Longrightarrow> onStep step s = s"
  by (simp add: onStep_def)

lemma onStep_repeat: "currentStepIndex s = 0 \<Longrightarrow> fold onStep (replicate k 0) s = s"
  by (induction k) (simp_all add: onStep_same)

text \<open>
  Claim C5 on a grid of a single step: one beat in the bar and no subdivision, which the
  pickers of the component allow. The engine reports step 0 at every step, so after the
  first step the step index of the component does not change, the effect does not run
  again and no bar is counted. The metronome is stopped and the trainer is enabled with
  \<open>barCount = 4\<close> and \<open>increment = 5\<close>; it is started, and \<open>k\<close> bars are played,
  followed by the wrap to step 0. Whatever \<open>k\<close> is, the tempo is the one it started with
  and the bar counter is 1. The claim has the tempo go from 100 to 105 with the fourth wrap,
  as it does on every grid of two or more steps (lemma \<open>speed_trainer_bars\<close>).
\<close>

theorem C5_one_step_grid:
  assumes "\<not> isPlaying_st s" "enabled (trainerSettings s)"
    and "barCount (trainerSettings s) = 4" "increment (trainerSettings s) = 5"
  shows "bpm_st (run (wraps 1 k) (togglePlay s)) = bpm_st s
    \<and> currentBarTracker (trainerSettings (run (wraps 1 k) (togglePlay s))) = 1"
proof -
  have "0 < barCount (trainerSettings s)"
    using assms(3) by simp
  with assms(1,2)
  have f: "at_step (run (wraps 1 0) (togglePlay s)) 0 1 (bpm_st s) (trainerSettings s)"
    by (rule first_step)
  then have "currentStepIndex (run (wraps 1 0) (togglePlay s)) = 0"
    by (simp add: at_step_def)
  then have "fold onStep (replicate k 0) (run (wraps 1 0) (togglePlay s))
      = run (wraps 1 0) (togglePlay s)"
    by (rule onStep_repeat)
  then have "run (wraps 1 k) (togglePlay s) = run (wraps 1 0) (togglePlay s)"
    unfolding run_def wraps_1 by (simp only: fold_simps replicate.simps comp_apply id_apply)
  with f show ?thesis
    by (simp add: at_step_def)
qed

theorem C5_one_step_grid_witness:
  "\<not> isPlaying_st metronome0 \<and> enabled (trainerSettings metronome0)
   \<and> barCount (trainerSettings metronome0) = 4 \<and> increment (trainerSettings metronome0) = 5
   \<and> bpm_st metronome0 = 100
   \<and> bpm_st (run (wraps 1 4) (togglePlay metronome0)) = 100
   \<and> currentBarTracker (trainerSettings (run (wraps 1 4) (togglePlay metronome0))) = 1"
proof -
  have m: "\<not> isPlaying_st metronome0" "enabled (trainerSettings metronome0)"
    "barCount (trainerSettings metronome0) = 4" "increment (trainerSettings metronome0) = 5"
    "bpm_st metronome0 = 100"
    by (simp_all add: metronome0_def)
  from C5_one_step_grid [OF m(1-4), of 4] m show ?thesis
    by simp
qed


section \<open>Properties of the synthesiser\<close>

lemma map_of_delete_same: "map_of (AList.delete k al) k = None"
  by (simp add: delete_conv')

text \<open>
  Claim C6. For every MIDI pitch and every state of the synthesiser, a second call of
  \<open>stop\<close> for the pitch, right after a first one, changes nothing: the state after both
  calls (the voice map, the voice objects and the fades requested from the audio layer) is
  the state after the first. A call of \<open>stop\<close> for a pitch that has no voice in the map
  leaves the state as it is.
\<close>

theorem C6_stop_idempotent:
  "stop midi immediate' (stop midi immediate s) = stop midi immediate s
   \<and> (map_of (activeNotes s) midi = None \<longrightarrow> stop midi immediate s = s)"
  by (auto simp: stop_def Let_def map_of_delete_same split: option.splits)

lemma play_60:
  "play 60 new_PolySynth = \<lparr>activeNotes = [(60, 0)],
     noteObjs = [\<lparr>osc = 1, gain = 2, isStopped = False\<rparr>], decayMode = True, nodes = 3,
     released = []\<rparr>"
  by (simp add: play_def new_PolySynth_def Let_def)

theorem C6_stop_idempotent_witness:
  "stop 60 True (stop 60 False (play 60 new_PolySynth)) = stop 60 False (play 60 new_PolySynth)
   \<and> activeNotes (stop 60 False (play 60 new_PolySynth)) = []
   \<and> map_of (activeNotes new_PolySynth) 60 = None
   \<and> stop 60 False new_PolySynth = new_PolySynth"
proof -
  have "map_of (activeNotes new_PolySynth) 60 = None"
    by (simp add: new_PolySynth_def)
  moreover have "activeNotes (stop 60 False (play 60 new_PolySynth)) = []"
    by (simp add: play_60 stop_def Let_def)
  ultimately show ?thesis
    using C6_stop_idempotent [of 60 True False "play 60 new_PolySynth"]
      C6_stop_idempotent [of 60 False False new_PolySynth]
    by simp
qed

subsection \<open>The invariant of the voice map\<close>

lemma set_delete: "set (AList.delete k al) = {p \<in> set al. fst p \<noteq> k}"
  by (auto simp: AList.delete_eq)

lemma distinct_snd_delete: "distinct (map snd al) \<Longrightarrow> distinct (map snd (AList.delete k al))"
  by (simp add: AList.delete_eq distinct_map_filter)

lemma set_update_subset: "set (AList.update k v al) \<subseteq> insert (k, v) (set al)"
  by (induction al) auto

lemma distinct_snd_update:
  "distinct (map snd al) \<Longrightarrow> v \<notin> snd ` set al \<Longrightarrow> distinct (map snd (AList.update k v al))"
proof (induction al)
  case Nil
  then show ?case by simp
next
  case (Cons p al)
  have "snd ` set (AList.update k v al) \<subseteq> insert v (snd ` set al)"
    using set_update_subset [of k v al] by force
  with Cons show ?case
    by (cases p) auto
qed

lemma stop_ok:
  assumes "voices_ok s"
  shows "voices_ok (stop midi immediate s)"
proof (cases "map_of (activeNotes s) midi")
  case None
  with assms show ?thesis
    by (simp add: stop_def)
next
  case (Some a)
  then have mem: "(midi, a) \<in> set (activeNotes s)"
    by (rule map_of_SomeD)
  show ?thesis
  proof (cases "isStopped (noteObjs s ! a)")
    case True
    with Some assms show ?thesis
      by (simp add: stop_def)
  next
    case False
    have other: "a' \<noteq> a" if "(midi', a') \<in> set (activeNotes s)" "midi' \<noteq> midi" for midi' a'
    proof
      assume "a' = a"
      from assms have "inj_on snd (set (activeNotes s))"
        by (simp add: voices_ok_def distinct_map)
      from inj_onD [OF this, of "(midi', a')" "(midi, a)"] that mem \<open>a' = a\<close>
      show False
        by simp
    qed
    have "\<forall>(midi', a') \<in> set (AList.delete midi (activeNotes s)).
        a' < length (noteObjs s) \<and> \<not> isStopped ((noteObjs s)[a := (noteObjs s ! a)\<lparr>isStopped := True\<rparr>] ! a')"
    proof (clarify)
      fix midi' a'
      assume "(midi', a') \<in> set (AList.delete midi (activeNotes s))"
      then have m: "(midi', a') \<in> set (activeNotes s)" "midi' \<noteq> midi"
        by (simp_all add: set_delete)
      then have "a' \<noteq> a"
        by (rule other)
      moreover from m(1) assms have "a' < length (noteObjs s)" "\<not> isStopped (noteObjs s ! a')"
        by (auto simp: voices_ok_def)
      ultimately show "a' < length (noteObjs s)
        \<and> \<not> isStopped ((noteObjs s)[a := (noteObjs s ! a)\<lparr>isStopped := True\<rparr>] ! a')"
        by simp
    qed
    with assms Some False show ?thesis
      by (simp add: stop_def voices_ok_def Let_def distinct_delete distinct_snd_delete)
  qed
qed

lemma stop_absent:
  assumes "voices_ok s"
  shows "map_of (activeNotes (stop midi immediate s)) midi = None"
proof (cases "map_of (activeNotes s) midi")
  case None
  then show ?thesis
    by (simp add: stop_def)
next
  case (Some a)
  then have "(midi, a) \<in> set (activeNotes s)"
    by (rule map_of_SomeD)
  with assms have "\<not> isStopped (noteObjs s ! a)"
    by (auto simp: voices_ok_def)
  with Some show ?thesis
    by (simp add: stop_def Let_def map_of_delete_same)
qed

lemma play_ok:
  assumes "voices_ok s"
  shows "voices_ok (play midi s)"
proof -
  define s1 where "s1 = (if map_of (activeNotes s) midi \<noteq> None then stop midi True s else s)"
  have ok: "voices_ok s1"
    using assms by (simp add: s1_def stop_ok)
  define a where "a = length (noteObjs s1)"
  have fresh: "a \<notin> snd ` set (activeNotes s1)"
    using ok by (auto simp: voices_ok_def a_def)
  have "\<forall>(midi', a') \<in> set (AList.update midi a (activeNotes s1)).
      a' < length (noteObjs s1 @ [\<lparr>osc = nodes s1, gain = nodes s1 + 1, isStopped = False\<rparr>])
      \<and> \<not> isStopped ((noteObjs s1 @ [\<lparr>osc = nodes s1, gain = nodes s1 + 1, isStopped = False\<rparr>]) ! a')"
  proof (clarify)
    fix midi' a'
    assume "(midi', a') \<in> set (AList.update midi a (activeNotes s1))"
    then consider "a' = a" | "(midi', a') \<in> set (activeNotes s1)"
      using set_update_subset [of midi a "activeNotes s1"] by auto
    then show "a' < length (noteObjs s1 @ [\<lparr>osc = nodes s1, gain = nodes s1 + 1, isStopped = False\<rparr>])
      \<and> \<not> isStopped ((noteObjs s1 @ [\<lparr>osc = nodes s1, gain = nodes s1 + 1, isStopped = False\<rparr>]) ! a')"
    proof cases
      case 1
      then show ?thesis
        by (simp add: a_def)
    next
      case 2
      with ok have "a' < length (noteObjs s1)" "\<not> isStopped (noteObjs s1 ! a')"
        by (auto simp: voices_ok_def)
      then show ?thesis
        by (simp add: nth_append)
    qed
  qed
  moreover have "distinct (map fst (AList.update midi a (activeNotes s1)))"
    using ok by (simp add: voices_ok_def distinct_update)
  moreover have "distinct (map snd (AList.update midi a (activeNotes s1)))"
    using ok fresh by (simp add: voices_ok_def distinct_snd_update)
  moreover have "play midi s = s1\<lparr>nodes := nodes s1 + 2,
      noteObjs := noteObjs s1 @ [\<lparr>osc = nodes s1, gain = nodes s1 + 1, isStopped = False\<rparr>],
      activeNotes := AList.update midi a (activeNotes s1)\<rparr>"
    by (simp only: play_def Let_def s1_def a_def)
  ultimately show ?thesis
    by (simp add: voices_ok_def)
qed

lemma stopAll_empty: "activeNotes (stopAll s) = []"
  by (simp add: stopAll_def)

lemma apply_call_ok: "voices_ok s \<Longrightarrow> voices_ok (apply_call c s)"
proof (cases c)
  case StopAll
  then show ?thesis
    by (simp add: voices_ok_def stopAll_empty)
qed (simp_all add: play_ok stop_ok safetyTimeout_def, simp add: voices_ok_def)

lemma fold_apply_call_ok: "voices_ok s \<Longrightarrow> voices_ok (fold apply_call calls s)"
  by (induction calls arbitrary: s) (simp_all add: apply_call_ok)

text \<open>
  Claim C9. After any sequence of calls of \<open>play\<close>, \<open>stop\<close> and \<open>stopAll\<close> on a new
  synthesiser (and of firings of safety timeouts and assignments of the decay mode between
  them), the voice map satisfies \<open>voices_ok\<close>: every entry refers to a voice whose stopped
  flag is false, since \<open>stop\<close> removes from the map the voice whose flag it sets; no pitch
  has two entries; and no voice is held under two pitches. After \<open>stopAll\<close> the map is
  empty.
\<close>

theorem C9_voice_map:
  "voices_ok (fold apply_call calls new_PolySynth)
   \<and> activeNotes (stopAll (fold apply_call calls new_PolySynth)) = []"
proof
  have "voices_ok new_PolySynth"
    by (simp add: voices_ok_def new_PolySynth_def)
  then show "voices_ok (fold apply_call calls new_PolySynth)"
    by (rule fold_apply_call_ok)
  show "activeNotes (stopAll (fold apply_call calls new_PolySynth)) = []"
    by (rule stopAll_empty)
qed


lemma calls_example:
  "fold apply_call [Play 60, Play 64, Play 60, Stop 64 False] new_PolySynth =
     \<lparr>activeNotes = [(60, 2)],
      noteObjs = [\<lparr>osc = 1, gain = 2, isStopped = True\<rparr>, \<lparr>osc = 3, gain = 4, isStopped = True\<rparr>,
        \<lparr>osc = 5, gain = 6, isStopped = False\<rparr>],
      decayMode = True, nodes = 7, released = [(1, 2, True), (3, 4, False)]\<rparr>"
  by (simp add: play_def stop_def new_PolySynth_def Let_def)

theorem C9_voice_map_witness:
  "voices_ok (fold apply_call [Play 60, Play 64, Play 60, Stop 64 False] new_PolySynth)
   \<and> activeNotes (fold apply_call [Play 60, Play 64, Play 60, Stop 64 False] new_PolySynth)
      = [(60, 2)]
   \<and> \<not> isStopped
        (noteObjs (fold apply_call [Play 60, Play 64, Play 60, Stop 64 False] new_PolySynth) ! 2)
   \<and> activeNotes
        (stopAll (fold apply_call [Play 60, Play 64, Play 60, Stop 64 False] new_PolySynth)) = []"
  using C9_voice_map [of "[Play 60, Play 64, Play 60, Stop 64 False]"]
  unfolding calls_example by simp

end
